theory Spec2Isabelle
  imports Complex_Main
begin

section \<open>Boards\<close>

text \<open>
  A board is the two-dimensional \<^verbatim>\<open>int8\<close> array of the games, kept as its list of rows.
  A cell holds 0 (empty), 1 (the stone of player 0) or 2 (the stone of player 1).
  Players are the seat indices 0 and 1; a stone is written as \<^verbatim>\<open>player + 1\<close>.
  The array handed to a game has the shape the game was built with, which
  \<open>wf_board\<close> states.
\<close>

type_synonym board = "int list list"

datatype error = ValueError | IndexError

definition zeros :: "nat \<Rightarrow> nat \<Rightarrow> board" where
  "zeros r c = replicate r (replicate c 0)"

definition wf_board :: "nat \<Rightarrow> nat \<Rightarrow> board \<Rightarrow> bool" where
  "wf_board r c b = (length b = r \<and> list_all (\<lambda>row. length row = c) b)"

definition cells_in_domain :: "board \<Rightarrow> bool" where
  "cells_in_domain b = list_all (list_all (\<lambda>v. v = 0 \<or> v = 1 \<or> v = 2)) b"

definition set_cell :: "board \<Rightarrow> nat \<Rightarrow> nat \<Rightarrow> int \<Rightarrow> board" where
  "set_cell b r c v = b[r := (b ! r)[c := v]]"

text \<open>
  An index into an axis of length \<open>n\<close>, as the array library resolves it: a negative
  index counts from the end, anything outside \<open>[-n, n)\<close> is an \<^verbatim>\<open>IndexError\<close>.
\<close>

definition axis_index :: "nat \<Rightarrow> int \<Rightarrow> error + nat" where
  "axis_index n i =
     (if 0 \<le> i \<and> i < int n then Inr (nat i)
      else if - int n \<le> i \<and> i < 0 then Inr (nat (i + int n))
      else Inl IndexError)"

section \<open>Gomoku\<close>

record gomoku =
  board_size :: nat
  gomoku_win_length :: nat

definition gomoku_reset :: "gomoku \<Rightarrow> board" where
  "gomoku_reset g = zeros (board_size g) (board_size g)"

definition gomoku_get_legal_moves :: "gomoku \<Rightarrow> board \<Rightarrow> nat \<Rightarrow> (int \<times> int) list" where
  "gomoku_get_legal_moves g state player =
     concat (map (\<lambda>r. map (\<lambda>c. (int r, int c))
                          (filter (\<lambda>c. state ! r ! c = 0) [0..<board_size g]))
                 [0..<board_size g])"

definition gomoku_make_move :: "gomoku \<Rightarrow> board \<Rightarrow> int \<times> int \<Rightarrow> nat \<Rightarrow> error + board" where
  "gomoku_make_move g state move player =
     (case move of (row, col) \<Rightarrow>
        if \<not> (0 \<le> row \<and> row < int (board_size g) \<and> 0 \<le> col \<and> col < int (board_size g))
        then Inl ValueError
        else if state ! nat row ! nat col \<noteq> 0 then Inl ValueError
        else Inr (set_cell state (nat row) (nat col) (int player + 1)))"

text \<open>
  The four scans of \<^verbatim>\<open>get_winner\<close> for one stone value. Each returns at the first
  window of \<open>win_length\<close> cells that all hold the stone.
\<close>

definition all_eq :: "int \<Rightarrow> int list \<Rightarrow> bool" where
  "all_eq pid xs = list_all (\<lambda>x. x = pid) xs"

definition horiz_window :: "board \<Rightarrow> nat \<Rightarrow> nat \<Rightarrow> nat \<Rightarrow> int list" where
  "horiz_window state w row col = take w (drop col (state ! row))"

definition vert_window :: "board \<Rightarrow> nat \<Rightarrow> nat \<Rightarrow> nat \<Rightarrow> int list" where
  "vert_window state w row col = map (\<lambda>r. r ! col) (take w (drop row state))"

definition diag_window :: "board \<Rightarrow> nat \<Rightarrow> nat \<Rightarrow> nat \<Rightarrow> int list" where
  "diag_window state w row col = map (\<lambda>i. state ! (row + i) ! (col + i)) [0..<w]"

definition anti_window :: "board \<Rightarrow> nat \<Rightarrow> int \<Rightarrow> nat \<Rightarrow> int list" where
  "anti_window state w row col = map (\<lambda>i. state ! nat (row - int i) ! (col + i)) [0..<w]"

definition gomoku_scan :: "gomoku \<Rightarrow> board \<Rightarrow> int \<Rightarrow> bool" where
  "gomoku_scan g state player_id =
     (let n = board_size g; w = gomoku_win_length g in
      list_ex (\<lambda>row. list_ex (\<lambda>col. all_eq player_id (horiz_window state w row col))
                              [0..<Suc n - w]) [0..<n]
      \<or> list_ex (\<lambda>col. list_ex (\<lambda>row. all_eq player_id (vert_window state w row col))
                              [0..<Suc n - w]) [0..<n]
      \<or> list_ex (\<lambda>row. list_ex (\<lambda>col. all_eq player_id (diag_window state w row col))
                              [0..<Suc n - w]) [0..<Suc n - w]
      \<or> list_ex (\<lambda>row. list_ex (\<lambda>col. all_eq player_id (anti_window state w row col))
                              [0..<Suc n - w]) [int w - 1..int n - 1])"

definition gomoku_get_winner :: "gomoku \<Rightarrow> board \<Rightarrow> nat option" where
  "gomoku_get_winner g state =
     (case find (gomoku_scan g state) [1, 2] of
        Some player_id \<Rightarrow> Some (nat (player_id - 1))
      | None \<Rightarrow> None)"

definition gomoku_is_terminal :: "gomoku \<Rightarrow> board \<Rightarrow> bool" where
  "gomoku_is_terminal g state =
     (if gomoku_get_winner g state \<noteq> None then True
      else length (gomoku_get_legal_moves g state 0) = 0)"

section \<open>Connect4\<close>

record connect4 =
  rows :: nat
  cols :: nat
  connect4_win_length :: nat

definition connect4_reset :: "connect4 \<Rightarrow> board" where
  "connect4_reset g = zeros (rows g) (cols g)"

definition connect4_get_legal_moves :: "connect4 \<Rightarrow> board \<Rightarrow> nat \<Rightarrow> int list" where
  "connect4_get_legal_moves g state player =
     map int (filter (\<lambda>col. state ! 0 ! col = 0) [0..<cols g])"

text \<open>
  \<^verbatim>\<open>get_legal_moves\<close> reads the top row of the board, so the board has at least one row
  wherever it is used: the statements below that depend on it say \<open>0 < rows\<close>.
\<close>

text \<open>
  The loop of \<^verbatim>\<open>make_move\<close> walks the rows from the bottom one up and writes the stone
  into the first empty cell of the column; when no cell is empty it ends without writing.
\<close>

fun drop_piece :: "board \<Rightarrow> nat \<Rightarrow> int \<Rightarrow> nat list \<Rightarrow> board" where
  "drop_piece new_state col v [] = new_state"
| "drop_piece new_state col v (row # rest) =
     (if new_state ! row ! col = 0 then set_cell new_state row col v
      else drop_piece new_state col v rest)"

definition connect4_make_move :: "connect4 \<Rightarrow> board \<Rightarrow> int \<Rightarrow> nat \<Rightarrow> error + board" where
  "connect4_make_move g state move player =
     (if rows g = 0 then Inr state
      else case axis_index (cols g) move of
             Inl e \<Rightarrow> Inl e
           | Inr col \<Rightarrow> Inr (drop_piece state col (int player + 1) (rev [0..<rows g])))"

definition connect4_scan :: "connect4 \<Rightarrow> board \<Rightarrow> int \<Rightarrow> bool" where
  "connect4_scan g state player_id =
     (let r = rows g; c = cols g; w = connect4_win_length g in
      list_ex (\<lambda>row. list_ex (\<lambda>col. all_eq player_id (horiz_window state w row col))
                              [0..<Suc c - w]) [0..<r]
      \<or> list_ex (\<lambda>row. list_ex (\<lambda>col. all_eq player_id (vert_window state w row col))
                              [0..<c]) [0..<Suc r - w]
      \<or> list_ex (\<lambda>row. list_ex (\<lambda>col. all_eq player_id (diag_window state w row col))
                              [0..<Suc c - w]) [0..<Suc r - w]
      \<or> list_ex (\<lambda>row. list_ex (\<lambda>col. all_eq player_id (anti_window state w row col))
                              [0..<Suc c - w]) [int w - 1..int r - 1])"

definition connect4_get_winner :: "connect4 \<Rightarrow> board \<Rightarrow> nat option" where
  "connect4_get_winner g state =
     (case find (connect4_scan g state) [1, 2] of
        Some player_id \<Rightarrow> Some (nat (player_id - 1))
      | None \<Rightarrow> None)"

definition connect4_is_terminal :: "connect4 \<Rightarrow> board \<Rightarrow> bool" where
  "connect4_is_terminal g state =
     (if connect4_get_winner g state \<noteq> None then True
      else length (connect4_get_legal_moves g state 0) = 0)"

section \<open>Playing a sequence of moves\<close>

text \<open>
  A state is reached from \<^verbatim>\<open>reset()\<close> by a sequence of calls of \<^verbatim>\<open>make_move\<close> that all
  return. \<open>gomoku_play\<close> and \<open>connect4_play\<close> run such a sequence of (move, player)
  pairs and stop at the first call that raises.
\<close>

fun gomoku_play :: "gomoku \<Rightarrow> board \<Rightarrow> ((int \<times> int) \<times> nat) list \<Rightarrow> error + board" where
  "gomoku_play g state [] = Inr state"
| "gomoku_play g state ((move, player) # rest) =
     (case gomoku_make_move g state move player of
        Inl e \<Rightarrow> Inl e
      | Inr new_state \<Rightarrow> gomoku_play g new_state rest)"

fun connect4_play :: "connect4 \<Rightarrow> board \<Rightarrow> (int \<times> nat) list \<Rightarrow> error + board" where
  "connect4_play g state [] = Inr state"
| "connect4_play g state ((move, player) # rest) =
     (case connect4_make_move g state move player of
        Inl e \<Rightarrow> Inl e
      | Inr new_state \<Rightarrow> connect4_play g new_state rest)"

definition players_valid :: "('m \<times> nat) list \<Rightarrow> bool" where
  "players_valid ms = list_all (\<lambda>mp. snd mp < 2) ms"

section \<open>Winning runs, as the specification words them\<close>

text \<open>
  The specification describes the win scan by windows: for a stone value, a window of
  \<open>win_length\<close> cells runs from a start cell along one of the four direction vectors
  (0,1), (1,0), (1,1), (-1,1); it counts when all of its cells lie on the board and hold
  the stone. \<open>run_at\<close> and \<open>has_run\<close> follow these words; they are compared below with the
  scans of the two \<^verbatim>\<open>get_winner\<close> methods. \<open>spec_winner\<close> is the scan order the
  specification gives: stone 1 before stone 2.
\<close>

definition directions :: "(int \<times> int) list" where
  "directions = [(0, 1), (1, 0), (1, 1), (- 1, 1)]"

definition run_at :: "nat \<Rightarrow> nat \<Rightarrow> nat \<Rightarrow> board \<Rightarrow> int \<Rightarrow> int \<Rightarrow> int \<Rightarrow> int \<times> int \<Rightarrow> bool" where
  "run_at R C w b pid r c d =
     (\<forall>i\<in>{0..<w}. 0 \<le> r + int i * fst d \<and> r + int i * fst d < int R
                  \<and> 0 \<le> c + int i * snd d \<and> c + int i * snd d < int C
                  \<and> b ! nat (r + int i * fst d) ! nat (c + int i * snd d) = pid)"

definition has_run :: "nat \<Rightarrow> nat \<Rightarrow> nat \<Rightarrow> board \<Rightarrow> int \<Rightarrow> bool" where
  "has_run R C w b pid =
     (\<exists>d\<in>set directions. \<exists>r\<in>{0..<R}. \<exists>c\<in>{0..<C}. run_at R C w b pid (int r) (int c) d)"

definition spec_winner :: "nat \<Rightarrow> nat \<Rightarrow> nat \<Rightarrow> board \<Rightarrow> nat option" where
  "spec_winner R C w b =
     (if has_run R C w b 1 then Some 0 else if has_run R C w b 2 then Some 1 else None)"

definition board_full :: "board \<Rightarrow> bool" where
  "board_full b = list_all (list_all (\<lambda>v. v \<noteq> 0)) b"

section \<open>Move text\<close>

text \<open>
  Strings are lists of characters, read as text in the ASCII range. \<open>str_int\<close> is the
  decimal text an f-string gives for an integer. \<open>py_int\<close> is the built-in \<^verbatim>\<open>int(...)\<close> on a
  string: white space around the number is dropped, one sign is allowed, and single
  underscores may stand between digits; anything else is a \<^verbatim>\<open>ValueError\<close>, here \<open>None\<close>.
\<close>

definition digit_char :: "nat \<Rightarrow> char" where
  "digit_char d = char_of (48 + d)"

definition is_digit :: "char \<Rightarrow> bool" where
  "is_digit c = (48 \<le> (of_char c :: nat) \<and> (of_char c :: nat) \<le> 57)"

definition digit_val :: "char \<Rightarrow> nat" where
  "digit_val c = of_char c - 48"

definition is_space :: "char \<Rightarrow> bool" where
  "is_space c = ((of_char c :: nat) \<in> {9, 10, 11, 12, 13, 28, 29, 30, 31, 32, 133, 160})"

fun str_nat :: "nat \<Rightarrow> string" where
  "str_nat n = (if n < 10 then [digit_char n] else str_nat (n div 10) @ [digit_char (n mod 10)])"

definition str_int :: "int \<Rightarrow> string" where
  "str_int i = (if i < 0 then CHR ''-'' # str_nat (nat (- i)) else str_nat (nat i))"

definition strip :: "string \<Rightarrow> string" where
  "strip s = rev (dropWhile is_space (rev (dropWhile is_space s)))"

fun py_digits :: "nat \<Rightarrow> string \<Rightarrow> nat option" where
  "py_digits acc [] = Some acc"
| "py_digits acc (c # cs) =
     (if is_digit c then py_digits (10 * acc + digit_val c) cs
      else if c = CHR ''_'' then
        (case cs of
           [] \<Rightarrow> None
         | d # ds \<Rightarrow> if is_digit d then py_digits (10 * acc + digit_val d) ds else None)
      else None)"

definition py_nat :: "string \<Rightarrow> nat option" where
  "py_nat s = (case s of [] \<Rightarrow> None
               | c # cs \<Rightarrow> if is_digit c then py_digits (digit_val c) cs else None)"

definition py_int :: "string \<Rightarrow> int option" where
  "py_int s =
     (case strip s of
        [] \<Rightarrow> None
      | c # cs \<Rightarrow>
          if c = CHR ''-'' then map_option (\<lambda>n. - int n) (py_nat cs)
          else if c = CHR ''+'' then map_option int (py_nat cs)
          else map_option int (py_nat (c # cs)))"

definition lower_char :: "char \<Rightarrow> char" where
  "lower_char c =
     (if 65 \<le> (of_char c :: nat) \<and> (of_char c :: nat) \<le> 90 then char_of ((of_char c :: nat) + 32)
      else c)"

definition lower :: "string \<Rightarrow> string" where
  "lower s = map lower_char s"

definition startswith :: "string \<Rightarrow> string \<Rightarrow> bool" where
  "startswith s p = (take (length p) s = p)"

fun split_on :: "char \<Rightarrow> string \<Rightarrow> string list" where
  "split_on sep [] = [[]]"
| "split_on sep (c # cs) =
     (if c = sep then [] # split_on sep cs
      else (case split_on sep cs of
              [] \<Rightarrow> [[c]]
            | p # ps \<Rightarrow> (c # p) # ps))"

definition connect4_move_to_string :: "int \<Rightarrow> string" where
  "connect4_move_to_string move = ''Column '' @ str_int move"

definition connect4_string_to_move :: "string \<Rightarrow> error + int" where
  "connect4_string_to_move move_str =
     (case (if startswith (lower move_str) ''column '' then py_int (drop 7 move_str)
            else py_int move_str) of
        None \<Rightarrow> Inl ValueError
      | Some move \<Rightarrow> Inr move)"

definition gomoku_move_to_string :: "int \<times> int \<Rightarrow> string" where
  "gomoku_move_to_string move = (case move of (row, col) \<Rightarrow> str_int row @ '','' @ str_int col)"

definition gomoku_string_to_move :: "string \<Rightarrow> error + int \<times> int" where
  "gomoku_string_to_move move_str =
     (let parts = split_on CHR '','' move_str in
      if length parts \<noteq> 2 then Inl ValueError
      else (case py_int (parts ! 0) of
              None \<Rightarrow> Inl ValueError
            | Some row \<Rightarrow>
                (case py_int (parts ! 1) of
                   None \<Rightarrow> Inl ValueError
                 | Some col \<Rightarrow> Inr (row, col))))"

section \<open>The process-wide random generator and the agents\<close>

text \<open>
  The agents and the match runner draw from the one generator of the \<^verbatim>\<open>random\<close> module.
  The generator belongs to the language's library, so it is a parameter here: \<open>'g\<close> is its
  state, \<open>seed\<close> gives the state after \<^verbatim>\<open>random.seed(n)\<close>, and \<open>randbelow g n\<close> gives a
  number below \<open>n\<close> and the next state. \<open>randbelow_ok\<close> is the library's contract.
  \<^verbatim>\<open>random.choice\<close> raises \<^verbatim>\<open>IndexError\<close> on an empty list.
\<close>

definition randbelow_ok :: "('g \<Rightarrow> nat \<Rightarrow> nat \<times> 'g) \<Rightarrow> bool" where
  "randbelow_ok randbelow = (\<forall>g n. 0 < n \<longrightarrow> fst (randbelow g n) < n)"

definition random_choice :: "('g \<Rightarrow> nat \<Rightarrow> nat \<times> 'g) \<Rightarrow> 'm list \<Rightarrow> 'g \<Rightarrow> (error + 'm) \<times> 'g" where
  "random_choice randbelow seq g =
     (if seq = [] then (Inl IndexError, g)
      else (case randbelow g (length seq) of (k, g') \<Rightarrow> (Inr (seq ! k), g')))"

text \<open>
  \<^verbatim>\<open>RandomAgent.__init__\<close> seeds the generator of the module when a seed is given; the agent
  keeps no generator of its own. \<^verbatim>\<open>make_move\<close> draws from the generator of the module.
\<close>

definition random_agent_init :: "(int \<Rightarrow> 'g) \<Rightarrow> int option \<Rightarrow> 'g \<Rightarrow> 'g" where
  "random_agent_init seed sd g = (case sd of None \<Rightarrow> g | Some n \<Rightarrow> seed n)"

definition random_agent_make_move ::
    "('g \<Rightarrow> nat \<Rightarrow> nat \<times> 'g) \<Rightarrow> 'm list \<Rightarrow> 'g \<Rightarrow> (error + 'm) \<times> 'g" where
  "random_agent_make_move randbelow legal_moves g =
     (if legal_moves = [] then (Inl ValueError, g)
      else random_choice randbelow legal_moves g)"

text \<open>The moves an agent makes when it is presented with a sequence of legal-move lists.\<close>

fun random_agent_moves ::
    "('g \<Rightarrow> nat \<Rightarrow> nat \<times> 'g) \<Rightarrow> 'm list list \<Rightarrow> 'g \<Rightarrow> (error + 'm) list \<times> 'g" where
  "random_agent_moves randbelow [] g = ([], g)"
| "random_agent_moves randbelow (legal_moves # rest) g =
     (case random_agent_make_move randbelow legal_moves g of
        (m, g1) \<Rightarrow> (case random_agent_moves randbelow rest g1 of
                      (ms, g2) \<Rightarrow> (m # ms, g2)))"

text \<open>
  A generator to run examples with: the state is a counter, a draw below \<open>n\<close> is the counter
  modulo \<open>n\<close>. It stands in for the library's generator, whose numbers are not modelled.
\<close>

definition counter_seed :: "int \<Rightarrow> nat" where
  "counter_seed n = nat \<bar>n\<bar>"

definition counter_randbelow :: "nat \<Rightarrow> nat \<Rightarrow> nat \<times> nat" where
  "counter_randbelow g n = (g mod n, Suc g)"

subsection \<open>Reading the reply of the language model\<close>

text \<open>
  \<^verbatim>\<open>_parse_response\<close> searches the reply for the pattern \<^verbatim>\<open>MOVE:\s*(\d+)\<close>, ignoring case.
  \<open>match_move_at\<close> is a match that starts at the head of the text: the five characters of
  the marker, then all white space, then all digits, of which there must be one; the
  result is the digit group. White space and digits are disjoint, so the greedy
  quantifiers never give anything back. \<open>re_search\<close> is the leftmost match.
\<close>

definition match_move_at :: "string \<Rightarrow> string option" where
  "match_move_at s =
     (if lower (take 5 s) = ''move:'' then
        (let ds = takeWhile is_digit (dropWhile is_space (drop 5 s)) in
         if ds = [] then None else Some ds)
      else None)"

fun re_search :: "string \<Rightarrow> string option" where
  "re_search [] = None"
| "re_search (c # cs) =
     (case match_move_at (c # cs) of
        Some ds \<Rightarrow> Some ds
      | None \<Rightarrow> re_search cs)"

definition parse_response ::
    "('g \<Rightarrow> nat \<Rightarrow> nat \<times> 'g) \<Rightarrow> string \<Rightarrow> 'm list \<Rightarrow> 'g \<Rightarrow> (error + 'm) \<times> 'g" where
  "parse_response randbelow response legal_moves g =
     (case re_search response of
        Some ds \<Rightarrow>
          (case py_int ds of
             None \<Rightarrow> (Inl ValueError, g)
           | Some move_index \<Rightarrow>
               if 0 \<le> move_index \<and> move_index < int (length legal_moves)
               then (Inr (legal_moves ! nat move_index), g)
               else random_choice randbelow legal_moves g)
      | None \<Rightarrow> random_choice randbelow legal_moves g)"

section \<open>The match runner\<close>

text \<open>
  The runner works on any game through the interface of the \<^verbatim>\<open>Game\<close> class, which is a
  record of functions here. Everything outside the runner that changes while a match runs
  (the agents' own state, the generator of the \<^verbatim>\<open>random\<close> module, the clock) is the world
  \<open>'w\<close>. An agent's \<^verbatim>\<open>make_move\<close> takes the seat, the state, the legal moves and the world
  and gives its decision, the seconds the call took and the new world; it either returns a
  value or raises. The notifications to the agents do nothing in the \<^verbatim>\<open>Agent\<close> base class;
  the \<^verbatim>\<open>move_feedback\<close> calls are kept in the list \<open>feedback\<close>, with the seat, the move
  and the flag passed. Times are real numbers.
\<close>

record ('s, 'm) game =
  num_players :: nat
  reset :: 's
  get_legal_moves :: "'s \<Rightarrow> nat \<Rightarrow> 'm list"
  make_move :: "'s \<Rightarrow> 'm \<Rightarrow> nat \<Rightarrow> error + 's"
  is_terminal :: "'s \<Rightarrow> bool"
  get_winner :: "'s \<Rightarrow> nat option"
  move_to_string :: "'m \<Rightarrow> string"

datatype 'm decision = Raises | Returns 'm

record ('w, 's, 'm) agents =
  agent_name :: "nat \<Rightarrow> string"
  agent_make_move :: "nat \<Rightarrow> 's \<Rightarrow> 'm list \<Rightarrow> 'w \<Rightarrow> 'm decision \<times> real \<times> 'w"
  randbelow :: "'w \<Rightarrow> nat \<Rightarrow> nat \<times> 'w"

record move_info =
  player :: nat
  info_agent_name :: string
  move :: string
  time_taken :: real

record ('s, 'm) match =
  state :: 's
  current_player :: nat
  move_count :: nat
  moves_history :: "move_info list"
  states_history :: "'s list"
  move_times :: "real list"
  feedback :: "(nat \<times> 'm option \<times> bool) list"

text \<open>
  One pass through the body of the loop of \<^verbatim>\<open>run_match\<close>, entered when the state is not
  terminal and the move count is below the cap. With no legal move the turn passes. A
  returned value that is in the list of legal moves is an accepted move. Anything else is
  rejected, and a move chosen by \<^verbatim>\<open>random.choice\<close> is applied instead. An error of the
  game's \<^verbatim>\<open>make_move\<close> is not caught.
\<close>

definition next_player :: "('s, 'm) game \<Rightarrow> nat \<Rightarrow> nat" where
  "next_player G p = (p + 1) mod num_players G"

definition accepted_turn ::
    "('s, 'm) game \<Rightarrow> ('w, 's, 'm) agents \<Rightarrow> ('s, 'm) match \<Rightarrow> 'm \<Rightarrow> real \<Rightarrow> error + ('s, 'm) match" where
  "accepted_turn G A M mv elapsed =
     (let M1 = M\<lparr>feedback := feedback M @ [(current_player M, Some mv, True)],
                 moves_history := moves_history M @
                   [\<lparr>player = current_player M,
                     info_agent_name = agent_name A (current_player M),
                     move = move_to_string G mv, time_taken = elapsed\<rparr>],
                 move_times := move_times M @ [elapsed]\<rparr>
      in case make_move G (state M) mv (current_player M) of
           Inl e \<Rightarrow> Inl e
         | Inr new_state \<Rightarrow>
             Inr (M1\<lparr>state := new_state,
                     states_history := states_history M @ [new_state],
                     current_player := next_player G (current_player M),
                     move_count := move_count M + 1\<rparr>))"

definition rejected_turn ::
    "('s, 'm) game \<Rightarrow> ('w, 's, 'm) agents \<Rightarrow> ('s, 'm) match \<Rightarrow> 'm list \<Rightarrow> 'm option \<Rightarrow> 'w
       \<Rightarrow> (error + ('s, 'm) match) \<times> 'w" where
  "rejected_turn G A M legal_moves mv w =
     (let M1 = M\<lparr>feedback := feedback M @ [(current_player M, mv, False)]\<rparr>
      in case random_choice (randbelow A) legal_moves w of
           (Inl e, w') \<Rightarrow> (Inl e, w')
         | (Inr fallback, w') \<Rightarrow>
             (case make_move G (state M) fallback (current_player M) of
                Inl e \<Rightarrow> (Inl e, w')
              | Inr new_state \<Rightarrow>
                  (Inr (M1\<lparr>state := new_state,
                           states_history := states_history M @ [new_state],
                           current_player := next_player G (current_player M),
                           move_count := move_count M + 1\<rparr>), w')))"

definition play_turn ::
    "('s, 'm) game \<Rightarrow> ('w, 's, 'm) agents \<Rightarrow> ('s, 'm) match \<Rightarrow> 'w \<Rightarrow> (error + ('s, 'm) match) \<times> 'w" where
  "play_turn G A M w =
     (let legal_moves = get_legal_moves G (state M) (current_player M) in
      if legal_moves = [] then
        (Inr (M\<lparr>current_player := next_player G (current_player M)\<rparr>), w)
      else
        (case agent_make_move A (current_player M) (state M) legal_moves w of
           (Returns mv, elapsed, w1) \<Rightarrow>
             if mv \<in> set legal_moves then (accepted_turn G A M mv elapsed, w1)
             else rejected_turn G A M legal_moves (Some mv) w1
         | (Raises, elapsed, w1) \<Rightarrow> rejected_turn G A M legal_moves None w1))"

text \<open>
  The loop may run forever (a game could offer no move to anyone and still not be
  terminal), so it is a partial function: \<open>None\<close> is a run that does not end.
\<close>

partial_function (option) match_loop ::
    "('s, 'm) game \<Rightarrow> ('w, 's, 'm) agents \<Rightarrow> nat \<Rightarrow> ('s, 'm) match \<times> 'w
       \<Rightarrow> ((error + ('s, 'm) match) \<times> 'w) option" where
  "match_loop G A max_moves Mw =
     (if \<not> is_terminal G (state (fst Mw)) \<and> move_count (fst Mw) < max_moves then
        (case play_turn G A (fst Mw) (snd Mw) of
           (Inl e, w') \<Rightarrow> Some (Inl e, w')
         | (Inr M', w') \<Rightarrow> match_loop G A max_moves (M', w'))
      else Some (Inr (fst Mw), snd Mw))"

declare match_loop.simps [code]

record result =
  moves :: nat
  winner :: "nat option"
  avg_move_time :: real
  max_move_time :: real

fun max_list :: "real list \<Rightarrow> real" where
  "max_list [] = 0"
| "max_list [x] = x"
| "max_list (x # y # ys) = max x (max_list (y # ys))"

definition initial_match :: "('s, 'm) game \<Rightarrow> ('s, 'm) match" where
  "initial_match G =
     \<lparr>state = reset G, current_player = 0, move_count = 0, moves_history = [],
      states_history = [reset G], move_times = [], feedback = []\<rparr>"

definition match_result :: "('s, 'm) game \<Rightarrow> ('s, 'm) match \<Rightarrow> result" where
  "match_result G M =
     \<lparr>moves = length (moves_history M),
      winner = get_winner G (state M),
      avg_move_time = (if move_times M = [] then 0
                       else sum_list (move_times M) / real (length (move_times M))),
      max_move_time = (if move_times M = [] then 0 else max_list (move_times M))\<rparr>"

definition run_match ::
    "('s, 'm) game \<Rightarrow> ('w, 's, 'm) agents \<Rightarrow> nat \<Rightarrow> 'w
       \<Rightarrow> ((error + result \<times> ('s, 'm) match) \<times> 'w) option" where
  "run_match G A max_moves w =
     (case match_loop G A max_moves (initial_match G, w) of
        None \<Rightarrow> None
      | Some (Inl e, w') \<Rightarrow> Some (Inl e, w')
      | Some (Inr M, w') \<Rightarrow> Some (Inr (match_result G M, M), w'))"

text \<open>The two games behind the interface.\<close>

definition gomoku_game :: "gomoku \<Rightarrow> (board, int \<times> int) game" where
  "gomoku_game g =
     \<lparr>num_players = 2, reset = gomoku_reset g, get_legal_moves = gomoku_get_legal_moves g,
      make_move = gomoku_make_move g, is_terminal = gomoku_is_terminal g,
      get_winner = gomoku_get_winner g, move_to_string = gomoku_move_to_string\<rparr>"

definition connect4_game :: "connect4 \<Rightarrow> (board, int) game" where
  "connect4_game g =
     \<lparr>num_players = 2, reset = connect4_reset g, get_legal_moves = connect4_get_legal_moves g,
      make_move = connect4_make_move g, is_terminal = connect4_is_terminal g,
      get_winner = connect4_get_winner g, move_to_string = connect4_move_to_string\<rparr>"

text \<open>
  An agent that proposes the same value on every call and takes one second, and the
  agents of the examples: seat 0 always proposes \<open>bad\<close>, seat 1 always proposes \<open>good\<close>.
\<close>

definition example_agents :: "'m \<Rightarrow> 'm \<Rightarrow> (nat, 's, 'm) agents" where
  "example_agents bad good =
     \<lparr>agent_name = (\<lambda>i. if i = 0 then ''BadAgent'' else ''GoodAgent''),
      agent_make_move = (\<lambda>i s legal_moves w. (Returns (if i = 0 then bad else good), 1, w)),
      randbelow = counter_randbelow\<rparr>"

subsection \<open>Properties of matches\<close>

text \<open>
  \<open>match_inv\<close> relates the lists of a match record: one feedback call and one state
  snapshot per consumed turn, one history entry and one time sample per accepted move.
  \<open>game_ok\<close> is what the runner needs of a game to finish a match: from states that
  satisfy \<open>good\<close>, a state that is not terminal offers a move to every player, and a legal
  move is applied without an error. \<open>always_illegal\<close> is an agent in a seat none of whose
  calls, on the legal moves of a state, returns one of them.
\<close>

definition accepted_count :: "(nat \<times> 'm option \<times> bool) list \<Rightarrow> nat" where
  "accepted_count fb = length (filter (\<lambda>f. snd (snd f)) fb)"

definition match_inv :: "('s, 'm) match \<Rightarrow> bool" where
  "match_inv M =
     (length (feedback M) = move_count M
      \<and> length (states_history M) = Suc (move_count M)
      \<and> last (states_history M) = state M
      \<and> length (moves_history M) = accepted_count (feedback M)
      \<and> move_times M = map time_taken (moves_history M))"

definition game_ok :: "('s, 'm) game \<Rightarrow> ('s \<Rightarrow> bool) \<Rightarrow> bool" where
  "game_ok G good =
     (good (reset G)
      \<and> (\<forall>s p. good s \<and> \<not> is_terminal G s \<longrightarrow> get_legal_moves G s p \<noteq> [])
      \<and> (\<forall>s p mv. good s \<and> mv \<in> set (get_legal_moves G s p)
            \<longrightarrow> (\<exists>s'. make_move G s mv p = Inr s' \<and> good s')))"

definition always_illegal :: "('s, 'm) game \<Rightarrow> ('w, 's, 'm) agents \<Rightarrow> nat \<Rightarrow> bool" where
  "always_illegal G A i =
     (\<forall>s w mv. fst (agent_make_move A i s (get_legal_moves G s i) w) = Returns mv
                \<longrightarrow> mv \<notin> set (get_legal_moves G s i))"

text \<open>
  The number of moves after which the first terminal state stands in a list of
  snapshots; the length of the list when none of them is terminal.
\<close>

definition moves_until_terminal :: "('s, 'm) game \<Rightarrow> 's list \<Rightarrow> nat" where
  "moves_until_terminal G hist = length (takeWhile (\<lambda>s. \<not> is_terminal G s) hist)"

definition rejected_for :: "nat \<Rightarrow> (nat \<times> 'm option \<times> bool) list \<Rightarrow> bool" where
  "rejected_for i fb = list_all (\<lambda>f. fst f = i \<longrightarrow> \<not> snd (snd f)) fb"

section \<open>Basic facts about boards and moves\<close>

lemma wf_board_zeros: "wf_board r c (zeros r c)"
  by (simp add: wf_board_def zeros_def list_all_iff)

lemma cells_in_domain_zeros: "cells_in_domain (zeros r c)"
  by (simp add: cells_in_domain_def zeros_def list_all_iff)

lemma set_cell_out_of_range: "\<not> i < length b \<Longrightarrow> set_cell b i j v = b"
  by (simp add: set_cell_def not_less list_update_beyond)

lemma wf_board_set_cell: "wf_board r c b \<Longrightarrow> wf_board r c (set_cell b i j v)"
proof (cases "i < length b")
  case True
  assume wf: "wf_board r c b"
  have "set (b[i := (b ! i)[j := v]]) \<subseteq> insert ((b ! i)[j := v]) (set b)"
    by (rule set_update_subset_insert)
  moreover have "length ((b ! i)[j := v]) = c"
    using wf nth_mem[OF True] by (auto simp: wf_board_def list_all_iff)
  ultimately show ?thesis
    using wf by (auto simp: wf_board_def set_cell_def list_all_iff)
next
  case False
  assume "wf_board r c b"
  then show ?thesis using False by (simp add: set_cell_out_of_range)
qed

lemma cells_in_domain_set_cell:
  assumes "cells_in_domain b" and "v = 0 \<or> v = 1 \<or> v = 2"
  shows "cells_in_domain (set_cell b i j v)"
proof (cases "i < length b")
  case True
  have sub: "set (b[i := (b ! i)[j := v]]) \<subseteq> insert ((b ! i)[j := v]) (set b)"
    by (rule set_update_subset_insert)
  have old: "\<forall>x\<in>set (b ! i). x = 0 \<or> x = 1 \<or> x = 2"
    using assms(1) nth_mem[OF True] by (auto simp: cells_in_domain_def list_all_iff)
  have "set ((b ! i)[j := v]) \<subseteq> insert v (set (b ! i))"
    by (rule set_update_subset_insert)
  with old assms(2) have new: "\<forall>x\<in>set ((b ! i)[j := v]). x = 0 \<or> x = 1 \<or> x = 2"
    by blast
  show ?thesis
    unfolding cells_in_domain_def set_cell_def list_all_iff
  proof
    fix row assume "row \<in> set (b[i := (b ! i)[j := v]])"
    with sub have "row = (b ! i)[j := v] \<or> row \<in> set b" by blast
    then show "\<forall>x\<in>set row. x = 0 \<or> x = 1 \<or> x = 2"
      using new assms(1) by (auto simp: cells_in_domain_def list_all_iff)
  qed
next
  case False
  then show ?thesis using assms(1) by (simp add: set_cell_out_of_range)
qed

lemma gomoku_legal_nat:
  "(r, c) \<in> set (gomoku_get_legal_moves g b p) \<longleftrightarrow>
     (\<exists>i<board_size g. \<exists>j<board_size g. r = int i \<and> c = int j \<and> b ! i ! j = 0)"
  by (auto simp: gomoku_get_legal_moves_def)

lemma gomoku_legal_iff:
  "(r, c) \<in> set (gomoku_get_legal_moves g b p) \<longleftrightarrow>
     0 \<le> r \<and> r < int (board_size g) \<and> 0 \<le> c \<and> c < int (board_size g) \<and> b ! nat r ! nat c = 0"
proof
  assume "(r, c) \<in> set (gomoku_get_legal_moves g b p)"
  then show "0 \<le> r \<and> r < int (board_size g) \<and> 0 \<le> c \<and> c < int (board_size g) \<and> b ! nat r ! nat c = 0"
    by (auto simp: gomoku_legal_nat)
next
  assume h: "0 \<le> r \<and> r < int (board_size g) \<and> 0 \<le> c \<and> c < int (board_size g) \<and> b ! nat r ! nat c = 0"
  then have "nat r < board_size g \<and> nat c < board_size g \<and> r = int (nat r) \<and> c = int (nat c)
      \<and> b ! nat r ! nat c = 0"
    by auto
  then show "(r, c) \<in> set (gomoku_get_legal_moves g b p)"
    unfolding gomoku_legal_nat by (intro exI[where x="nat r"] exI[where x="nat c"] conjI) simp_all
qed

lemma gomoku_make_move_legal:
  assumes "m \<in> set (gomoku_get_legal_moves g b q)"
  shows "gomoku_make_move g b m p = Inr (set_cell b (nat (fst m)) (nat (snd m)) (int p + 1))"
proof -
  obtain r c where m: "m = (r, c)" by (cases m)
  with assms show ?thesis
    by (simp add: gomoku_legal_iff gomoku_make_move_def)
qed

lemma connect4_legal_iff:
  "m \<in> set (connect4_get_legal_moves g b p) \<longleftrightarrow>
     0 \<le> m \<and> m < int (cols g) \<and> b ! 0 ! nat m = 0"
proof
  assume "m \<in> set (connect4_get_legal_moves g b p)"
  then show "0 \<le> m \<and> m < int (cols g) \<and> b ! 0 ! nat m = 0"
    by (auto simp: connect4_get_legal_moves_def)
next
  assume h: "0 \<le> m \<and> m < int (cols g) \<and> b ! 0 ! nat m = 0"
  then have "nat m \<in> set (filter (\<lambda>col. b ! 0 ! col = 0) [0..<cols g])" by auto
  then have "int (nat m) \<in> set (connect4_get_legal_moves g b p)"
    unfolding connect4_get_legal_moves_def set_map by (rule imageI)
  with h show "m \<in> set (connect4_get_legal_moves g b p)" by simp
qed

lemma drop_piece_full:
  "(\<forall>r<n. b ! r ! c \<noteq> 0) \<Longrightarrow> drop_piece b c v (rev [0..<n]) = b"
  by (induction n) auto

lemma drop_piece_lowest:
  "\<exists>r<n. b ! r ! c = 0 \<Longrightarrow>
   \<exists>r<n. b ! r ! c = 0 \<and> (\<forall>r'. r < r' \<and> r' < n \<longrightarrow> b ! r' ! c \<noteq> 0)
         \<and> drop_piece b c v (rev [0..<n]) = set_cell b r c v"
proof (induction n)
  case 0
  then show ?case by simp
next
  case (Suc n)
  show ?case
  proof (cases "b ! n ! c = 0")
    case True
    then show ?thesis by (intro exI[where x=n]) auto
  next
    case False
    with Suc.prems have "\<exists>r<n. b ! r ! c = 0"
      by (metis less_Suc_eq)
    from Suc.IH[OF this] obtain r where r: "r < n" "b ! r ! c = 0"
      "\<forall>r'. r < r' \<and> r' < n \<longrightarrow> b ! r' ! c \<noteq> 0"
      "drop_piece b c v (rev [0..<n]) = set_cell b r c v" by blast
    show ?thesis
    proof (intro exI[where x=r] conjI allI impI)
      show "r < Suc n" using r(1) by simp
      show "b ! r ! c = 0" by (rule r(2))
      show "drop_piece b c v (rev [0..<Suc n]) = set_cell b r c v"
        using False r(4) by simp
    next
      fix r' assume "r < r' \<and> r' < Suc n"
      then show "b ! r' ! c \<noteq> 0" using r(3) False by (cases "r' = n") auto
    qed
  qed
qed

lemma connect4_make_move_legal:
  assumes "0 < rows g" and "m \<in> set (connect4_get_legal_moves g b q)"
  shows "\<exists>r<rows g. b ! r ! nat m = 0 \<and> (\<forall>r'. r < r' \<and> r' < rows g \<longrightarrow> b ! r' ! nat m \<noteq> 0)
            \<and> connect4_make_move g b m p = Inr (set_cell b r (nat m) (int p + 1))"
proof -
  from assms(2) have m: "0 \<le> m" "m < int (cols g)" "b ! 0 ! nat m = 0"
    by (simp_all add: connect4_legal_iff)
  then have idx: "axis_index (cols g) m = Inr (nat m)" by (simp add: axis_index_def)
  have "\<exists>r<rows g. b ! r ! nat m = 0" using assms(1) m(3) by blast
  from drop_piece_lowest[OF this, of "int p + 1"] obtain r where
    "r < rows g" "b ! r ! nat m = 0" "\<forall>r'. r < r' \<and> r' < rows g \<longrightarrow> b ! r' ! nat m \<noteq> 0"
    "drop_piece b (nat m) (int p + 1) (rev [0..<rows g]) = set_cell b r (nat m) (int p + 1)"
    by blast
  then show ?thesis
    using assms(1) idx by (intro exI[where x=r]) (simp add: connect4_make_move_def)
qed

lemma gomoku_make_move_invariant:
  assumes "gomoku_make_move g b m p = Inr b'" and "p < 2"
    and "wf_board r c b" and "cells_in_domain b"
  shows "wf_board r c b' \<and> cells_in_domain b'"
proof -
  have v: "int p + 1 = 0 \<or> int p + 1 = 1 \<or> int p + 1 = 2" using assms(2) by auto
  from assms(1) obtain i j where "b' = set_cell b i j (int p + 1)"
    by (auto simp: gomoku_make_move_def split: prod.splits if_splits)
  then show ?thesis
    using assms(3,4) v by (simp add: wf_board_set_cell cells_in_domain_set_cell)
qed

lemma drop_piece_cases:
  "drop_piece b c v rs = b \<or> (\<exists>r. drop_piece b c v rs = set_cell b r c v)"
  by (induction rs) auto

lemma connect4_make_move_invariant:
  assumes "connect4_make_move g b m p = Inr b'" and "p < 2"
    and "wf_board r c b" and "cells_in_domain b"
  shows "wf_board r c b' \<and> cells_in_domain b'"
proof -
  have v: "int p + 1 = 0 \<or> int p + 1 = 1 \<or> int p + 1 = 2" using assms(2) by auto
  from assms(1) have "b' = b \<or> (\<exists>col. b' = drop_piece b col (int p + 1) (rev [0..<rows g]))"
    by (auto simp: connect4_make_move_def split: if_splits sum.splits)
  then have "b' = b \<or> (\<exists>i j. b' = set_cell b i j (int p + 1))"
    using drop_piece_cases by metis
  then show ?thesis
    using assms(3,4) v by (auto simp: wf_board_set_cell cells_in_domain_set_cell)
qed

section \<open>Reachable boards\<close>

lemma gomoku_play_invariant:
  "players_valid ms \<Longrightarrow> wf_board r c s \<Longrightarrow> cells_in_domain s \<Longrightarrow>
   gomoku_play g s ms = Inr s' \<Longrightarrow> wf_board r c s' \<and> cells_in_domain s'"
proof (induction ms arbitrary: s)
  case Nil
  then show ?case by simp
next
  case (Cons mp ms)
  obtain m p where mp: "mp = (m, p)" by (cases mp)
  from Cons.prems(1) mp have p: "p < 2" and rest: "players_valid ms"
    by (simp_all add: players_valid_def)
  from Cons.prems(4) mp obtain s1 where
    s1: "gomoku_make_move g s m p = Inr s1" and run: "gomoku_play g s1 ms = Inr s'"
    by (auto split: sum.splits)
  from gomoku_make_move_invariant[OF s1 p Cons.prems(2,3)]
  have "wf_board r c s1" "cells_in_domain s1" by simp_all
  from Cons.IH[OF rest this run] show ?case .
qed

lemma connect4_play_invariant:
  "players_valid ms \<Longrightarrow> wf_board r c s \<Longrightarrow> cells_in_domain s \<Longrightarrow>
   connect4_play g s ms = Inr s' \<Longrightarrow> wf_board r c s' \<and> cells_in_domain s'"
proof (induction ms arbitrary: s)
  case Nil
  then show ?case by simp
next
  case (Cons mp ms)
  obtain m p where mp: "mp = (m, p)" by (cases mp)
  from Cons.prems(1) mp have p: "p < 2" and rest: "players_valid ms"
    by (simp_all add: players_valid_def)
  from Cons.prems(4) mp obtain s1 where
    s1: "connect4_make_move g s m p = Inr s1" and run: "connect4_play g s1 ms = Inr s'"
    by (auto split: sum.splits)
  from connect4_make_move_invariant[OF s1 p Cons.prems(2,3)]
  have "wf_board r c s1" "cells_in_domain s1" by simp_all
  from Cons.IH[OF rest this run] show ?case .
qed

text \<open>
  C9. Every state reached from \<open>reset()\<close> by calls of \<open>make_move\<close> that return, with players
  0 and 1, has the dimensions the game was built with and holds only the cell values 0, 1
  and 2; for Gomoku and for Connect4.
\<close>

theorem board_domain_invariant:
  "(players_valid ms \<and> gomoku_play g (gomoku_reset g) ms = Inr s
      \<longrightarrow> wf_board (board_size g) (board_size g) s \<and> cells_in_domain s)
   \<and> (players_valid ns \<and> connect4_play c (connect4_reset c) ns = Inr t
      \<longrightarrow> wf_board (rows c) (cols c) t \<and> cells_in_domain t)"
proof (intro conjI impI)
  assume h: "players_valid ms \<and> gomoku_play g (gomoku_reset g) ms = Inr s"
  have "wf_board (board_size g) (board_size g) s \<and> cells_in_domain s"
    using gomoku_play_invariant[of ms "board_size g" "board_size g" "gomoku_reset g" g s] h
    by (simp add: gomoku_reset_def wf_board_zeros cells_in_domain_zeros)
  then show "wf_board (board_size g) (board_size g) s" "cells_in_domain s" by simp_all
next
  assume h: "players_valid ns \<and> connect4_play c (connect4_reset c) ns = Inr t"
  have "wf_board (rows c) (cols c) t \<and> cells_in_domain t"
    using connect4_play_invariant[of ns "rows c" "cols c" "connect4_reset c" c t] h
    by (simp add: connect4_reset_def wf_board_zeros cells_in_domain_zeros)
  then show "wf_board (rows c) (cols c) t" "cells_in_domain t" by simp_all
qed

lemma gomoku_play_example:
  "gomoku_play \<lparr>board_size = 2, gomoku_win_length = 2\<rparr>
     (gomoku_reset \<lparr>board_size = 2, gomoku_win_length = 2\<rparr>) [((0, 0), 0), ((1, 0), 1)]
   = Inr [[1, 0], [2, 0]]"
  by (simp add: gomoku_make_move_def gomoku_reset_def zeros_def set_cell_def numeral_2_eq_2)

lemma connect4_play_example:
  "connect4_play \<lparr>rows = 2, cols = 2, connect4_win_length = 2\<rparr>
     (connect4_reset \<lparr>rows = 2, cols = 2, connect4_win_length = 2\<rparr>) [(0, 0), (0, 1)]
   = Inr [[2, 0], [1, 0]]"
  by (simp add: connect4_make_move_def connect4_reset_def zeros_def set_cell_def axis_index_def
      numeral_2_eq_2)

theorem board_domain_invariant_witness:
  "players_valid [((0, 0), 0), ((1, 0), 1 :: nat)]
   \<and> gomoku_play \<lparr>board_size = 2, gomoku_win_length = 2\<rparr>
        (gomoku_reset \<lparr>board_size = 2, gomoku_win_length = 2\<rparr>) [((0, 0), 0), ((1, 0), 1)]
      = Inr [[1, 0], [2, 0]]
   \<and> wf_board 2 2 [[1, 0], [2, 0]] \<and> cells_in_domain [[1, 0], [2, 0]]
   \<and> players_valid [(0 :: int, 0), (0, 1 :: nat)]
   \<and> connect4_play \<lparr>rows = 2, cols = 2, connect4_win_length = 2\<rparr>
        (connect4_reset \<lparr>rows = 2, cols = 2, connect4_win_length = 2\<rparr>) [(0, 0), (0, 1)]
      = Inr [[2, 0], [1, 0]]
   \<and> wf_board 2 2 [[2, 0], [1, 0]] \<and> cells_in_domain [[2, 0], [1, 0]]"
  using board_domain_invariant[of "[((0, 0), 0), ((1, 0), 1)]"
      "\<lparr>board_size = 2, gomoku_win_length = 2\<rparr>" "[[1, 0], [2, 0]]"
      "[(0, 0), (0, 1)]" "\<lparr>rows = 2, cols = 2, connect4_win_length = 2\<rparr>" "[[2, 0], [1, 0]]"]
    gomoku_play_example connect4_play_example
  by (simp add: players_valid_def)

section \<open>Legal and illegal moves\<close>

text \<open>
  C5. Legality closure: in both games, a move taken from \<open>get_legal_moves\<close> of a state is
  applied by \<open>make_move\<close> without an error, for either player; the call returns a board of
  the same shape. In Gomoku the stone stands on the chosen cell, in Connect4 on the lowest
  empty cell of the chosen column.
\<close>

theorem legality_closure:
  "(wf_board (board_size g) (board_size g) s \<and> p < 2
      \<and> m \<in> set (gomoku_get_legal_moves g s p)
     \<longrightarrow> (\<exists>s'. gomoku_make_move g s m p = Inr s'
             \<and> wf_board (board_size g) (board_size g) s'
             \<and> s' = set_cell s (nat (fst m)) (nat (snd m)) (int p + 1)))
   \<and> (wf_board (rows c) (cols c) t \<and> 0 < rows c \<and> q < 2
      \<and> k \<in> set (connect4_get_legal_moves c t q)
     \<longrightarrow> (\<exists>t' r. connect4_make_move c t k q = Inr t'
             \<and> wf_board (rows c) (cols c) t'
             \<and> r < rows c \<and> t ! r ! nat k = 0
             \<and> (\<forall>r'. r < r' \<and> r' < rows c \<longrightarrow> t ! r' ! nat k \<noteq> 0)
             \<and> t' = set_cell t r (nat k) (int q + 1)))"
proof (intro conjI impI)
  assume h: "wf_board (board_size g) (board_size g) s \<and> p < 2
      \<and> m \<in> set (gomoku_get_legal_moves g s p)"
  then have "m \<in> set (gomoku_get_legal_moves g s p)" by simp
  then have "gomoku_make_move g s m p = Inr (set_cell s (nat (fst m)) (nat (snd m)) (int p + 1))"
    by (rule gomoku_make_move_legal)
  with h show "\<exists>s'. gomoku_make_move g s m p = Inr s'
             \<and> wf_board (board_size g) (board_size g) s'
             \<and> s' = set_cell s (nat (fst m)) (nat (snd m)) (int p + 1)"
    by (simp add: wf_board_set_cell)
next
  assume h: "wf_board (rows c) (cols c) t \<and> 0 < rows c \<and> q < 2
      \<and> k \<in> set (connect4_get_legal_moves c t q)"
  then have pos: "0 < rows c" and leg: "k \<in> set (connect4_get_legal_moves c t q)"
    and wf: "wf_board (rows c) (cols c) t" by simp_all
  from connect4_make_move_legal[OF pos leg, of q] obtain r where
    r: "r < rows c" "t ! r ! nat k = 0" "\<forall>r'. r < r' \<and> r' < rows c \<longrightarrow> t ! r' ! nat k \<noteq> 0"
    "connect4_make_move c t k q = Inr (set_cell t r (nat k) (int q + 1))" by blast
  show "\<exists>t' r. connect4_make_move c t k q = Inr t'
             \<and> wf_board (rows c) (cols c) t'
             \<and> r < rows c \<and> t ! r ! nat k = 0
             \<and> (\<forall>r'. r < r' \<and> r' < rows c \<longrightarrow> t ! r' ! nat k \<noteq> 0)
             \<and> t' = set_cell t r (nat k) (int q + 1)"
    using r wf by (intro exI[where x="set_cell t r (nat k) (int q + 1)"] exI[where x=r])
      (simp add: wf_board_set_cell)
qed

theorem legality_closure_witness:
  "wf_board 2 2 [[0, 0], [1, 0]] \<and> (1 :: nat) < 2
   \<and> (0, 1) \<in> set (gomoku_get_legal_moves \<lparr>board_size = 2, gomoku_win_length = 2\<rparr> [[0, 0], [1, 0]] 1)
   \<and> gomoku_make_move \<lparr>board_size = 2, gomoku_win_length = 2\<rparr> [[0, 0], [1, 0]] (0, 1) 1
       = Inr [[0, 2], [1, 0]]
   \<and> 0 \<in> set (connect4_get_legal_moves \<lparr>rows = 2, cols = 2, connect4_win_length = 2\<rparr> [[0, 0], [1, 0]] 1)
   \<and> (\<exists>t'. connect4_make_move \<lparr>rows = 2, cols = 2, connect4_win_length = 2\<rparr> [[0, 0], [1, 0]] 0 1
       = Inr t')"
  using legality_closure[of "\<lparr>board_size = 2, gomoku_win_length = 2\<rparr>" "[[0, 0], [1, 0]]" 1 "(0, 1)"
      "\<lparr>rows = 2, cols = 2, connect4_win_length = 2\<rparr>" "[[0, 0], [1, 0]]" 1 0]
  by (simp add: gomoku_legal_iff connect4_legal_iff wf_board_def set_cell_def) blast

text \<open>
  What \<open>Gomoku.make_move\<close> does with a move that is out of bounds or on an occupied cell:
  it raises \<open>ValueError\<close>.
\<close>

lemma gomoku_make_move_rejects:
  "\<not> (0 \<le> r \<and> r < int (board_size g) \<and> 0 \<le> c \<and> c < int (board_size g))
     \<or> s ! nat r ! nat c \<noteq> 0
   \<Longrightarrow> gomoku_make_move g s (r, c) p = Inl ValueError"
  by (auto simp: gomoku_make_move_def)

lemma connect4_make_move_full_column:
  "0 \<le> k \<Longrightarrow> k < int (cols c) \<Longrightarrow> \<forall>r<rows c. t ! r ! nat k \<noteq> 0
   \<Longrightarrow> connect4_make_move c t k p = Inr t"
  by (simp add: connect4_make_move_def axis_index_def drop_piece_full)

text \<open>
  C1. \<open>make_move\<close> is to fail on an occupied cell, an out-of-bounds coordinate and a full
  Connect4 column. \<open>Connect4.make_move\<close> has no check: on the 2 x 2 board whose column 0 is
  full, dropping into column 0 returns the board as it was and raises nothing, and the
  column index -1 is taken as the last column.
\<close>

theorem connect4_full_column_not_rejected:
  "connect4_make_move \<lparr>rows = 2, cols = 2, connect4_win_length = 2\<rparr> [[2, 0], [1, 0]] 0 0
     = Inr [[2, 0], [1, 0]]
   \<and> connect4_get_legal_moves \<lparr>rows = 2, cols = 2, connect4_win_length = 2\<rparr> [[2, 0], [1, 0]] 0 = [1]
   \<and> connect4_make_move \<lparr>rows = 2, cols = 2, connect4_win_length = 2\<rparr> [[0, 0], [0, 0]] (- 1) 0
     = Inr [[0, 0], [0, 1]]"
  by (simp add: connect4_make_move_def connect4_get_legal_moves_def axis_index_def set_cell_def
      numeral_2_eq_2)

section \<open>The win scan and the runs of the specification\<close>

lemma wf_board_row_length: "wf_board R C b \<Longrightarrow> r < R \<Longrightarrow> length (b ! r) = C"
  by (auto simp: wf_board_def list_all_iff)

lemma all_eq_map_upt: "all_eq pid (map f [0..<w]) \<longleftrightarrow> (\<forall>i<w. f i = pid)"
  by (auto simp: all_eq_def list_all_iff)

lemma horiz_window_eq:
  assumes "wf_board R C b" "row < R" "col + w \<le> C"
  shows "horiz_window b w row col = map (\<lambda>i. b ! row ! (col + i)) [0..<w]"
proof (rule nth_equalityI)
  have len: "length (b ! row) = C" using assms(1,2) by (rule wf_board_row_length)
  show "length (horiz_window b w row col) = length (map (\<lambda>i. b ! row ! (col + i)) [0..<w])"
    using len assms(3) by (simp add: horiz_window_def)
  fix i assume "i < length (horiz_window b w row col)"
  then have "i < w" by (simp add: horiz_window_def)
  then show "horiz_window b w row col ! i = map (\<lambda>i. b ! row ! (col + i)) [0..<w] ! i"
    using len assms(3) by (simp add: horiz_window_def)
qed

lemma vert_window_eq:
  assumes "wf_board R C b" "row + w \<le> R"
  shows "vert_window b w row col = map (\<lambda>i. b ! (row + i) ! col) [0..<w]"
proof (rule nth_equalityI)
  have len: "length b = R" using assms(1) by (simp add: wf_board_def)
  show "length (vert_window b w row col) = length (map (\<lambda>i. b ! (row + i) ! col) [0..<w])"
    using len assms(2) by (simp add: vert_window_def)
  fix i assume "i < length (vert_window b w row col)"
  then have "i < w" by (simp add: vert_window_def)
  then show "vert_window b w row col ! i = map (\<lambda>i. b ! (row + i) ! col) [0..<w] ! i"
    using len assms(2) by (simp add: vert_window_def)
qed

lemma run_at_horiz:
  assumes "0 < w" "r < R"
  shows "run_at R C w b pid (int r) (int c) (0, 1) \<longleftrightarrow> c + w \<le> C \<and> (\<forall>i<w. b ! r ! (c + i) = pid)"
proof
  assume h: "run_at R C w b pid (int r) (int c) (0, 1)"
  have "w - 1 \<in> {0..<w}" using assms(1) by simp
  with h have "int c + int (w - 1) < int C" unfolding run_at_def by fastforce
  then have "c + w \<le> C" using assms(1) by linarith
  moreover have "\<forall>i<w. b ! r ! (c + i) = pid"
  proof (intro allI impI)
    fix i assume "i < w"
    then have "i \<in> {0..<w}" by simp
    with h have "b ! nat (int r + int i * 0) ! nat (int c + int i * 1) = pid"
      unfolding run_at_def by fastforce
    then show "b ! r ! (c + i) = pid" by (simp add: nat_add_distrib)
  qed
  ultimately show "c + w \<le> C \<and> (\<forall>i<w. b ! r ! (c + i) = pid)" by simp
next
  assume h: "c + w \<le> C \<and> (\<forall>i<w. b ! r ! (c + i) = pid)"
  show "run_at R C w b pid (int r) (int c) (0, 1)"
    unfolding run_at_def
  proof
    fix i assume "i \<in> {0..<w}"
    then have i: "i < w" by simp
    with h have "b ! r ! (c + i) = pid" "c + i < C" by auto
    then show "0 \<le> int r + int i * fst (0::int, 1::int) \<and> int r + int i * fst (0::int, 1::int) < int R
                  \<and> 0 \<le> int c + int i * snd (0::int, 1::int) \<and> int c + int i * snd (0::int, 1::int) < int C
                  \<and> b ! nat (int r + int i * fst (0::int, 1::int)) ! nat (int c + int i * snd (0::int, 1::int)) = pid"
      using assms(2) by (simp add: nat_add_distrib)
  qed
qed


lemma run_at_vert:
  assumes "0 < w" "c < C"
  shows "run_at R C w b pid (int r) (int c) (1, 0) \<longleftrightarrow> r + w \<le> R \<and> (\<forall>i<w. b ! (r + i) ! c = pid)"
proof
  assume h: "run_at R C w b pid (int r) (int c) (1, 0)"
  have "w - 1 \<in> {0..<w}" using assms(1) by simp
  with h have "int r + int (w - 1) < int R" unfolding run_at_def by fastforce
  then have "r + w \<le> R" using assms(1) by linarith
  moreover have "\<forall>i<w. b ! (r + i) ! c = pid"
  proof (intro allI impI)
    fix i assume "i < w"
    then have "i \<in> {0..<w}" by simp
    with h have "b ! nat (int r + int i * 1) ! nat (int c + int i * 0) = pid"
      unfolding run_at_def by fastforce
    then show "b ! (r + i) ! c = pid" by (simp add: nat_add_distrib)
  qed
  ultimately show "r + w \<le> R \<and> (\<forall>i<w. b ! (r + i) ! c = pid)" by simp
next
  assume h: "r + w \<le> R \<and> (\<forall>i<w. b ! (r + i) ! c = pid)"
  show "run_at R C w b pid (int r) (int c) (1, 0)"
    unfolding run_at_def
  proof
    fix i assume "i \<in> {0..<w}"
    then have i: "i < w" by simp
    with h have "b ! (r + i) ! c = pid" "r + i < R" by auto
    then show "0 \<le> int r + int i * fst (1::int, 0::int) \<and> int r + int i * fst (1::int, 0::int) < int R
                  \<and> 0 \<le> int c + int i * snd (1::int, 0::int) \<and> int c + int i * snd (1::int, 0::int) < int C
                  \<and> b ! nat (int r + int i * fst (1::int, 0::int)) ! nat (int c + int i * snd (1::int, 0::int)) = pid"
      using assms(2) by (simp add: nat_add_distrib)
  qed
qed

lemma run_at_diag:
  assumes "0 < w"
  shows "run_at R C w b pid (int r) (int c) (1, 1) \<longleftrightarrow>
         r + w \<le> R \<and> c + w \<le> C \<and> (\<forall>i<w. b ! (r + i) ! (c + i) = pid)"
proof
  assume h: "run_at R C w b pid (int r) (int c) (1, 1)"
  have "w - 1 \<in> {0..<w}" using assms(1) by simp
  with h have "int r + int (w - 1) < int R \<and> int c + int (w - 1) < int C"
    unfolding run_at_def by fastforce
  then have "r + w \<le> R" "c + w \<le> C" using assms(1) by linarith+
  moreover have "\<forall>i<w. b ! (r + i) ! (c + i) = pid"
  proof (intro allI impI)
    fix i assume "i < w"
    then have "i \<in> {0..<w}" by simp
    with h have "b ! nat (int r + int i * 1) ! nat (int c + int i * 1) = pid"
      unfolding run_at_def by fastforce
    then show "b ! (r + i) ! (c + i) = pid" by (simp add: nat_add_distrib)
  qed
  ultimately show "r + w \<le> R \<and> c + w \<le> C \<and> (\<forall>i<w. b ! (r + i) ! (c + i) = pid)" by simp
next
  assume h: "r + w \<le> R \<and> c + w \<le> C \<and> (\<forall>i<w. b ! (r + i) ! (c + i) = pid)"
  show "run_at R C w b pid (int r) (int c) (1, 1)"
    unfolding run_at_def
  proof
    fix i assume "i \<in> {0..<w}"
    then have i: "i < w" by simp
    with h have "b ! (r + i) ! (c + i) = pid" "r + i < R" "c + i < C" by auto
    then show "0 \<le> int r + int i * fst (1::int, 1::int) \<and> int r + int i * fst (1::int, 1::int) < int R
                  \<and> 0 \<le> int c + int i * snd (1::int, 1::int) \<and> int c + int i * snd (1::int, 1::int) < int C
                  \<and> b ! nat (int r + int i * fst (1::int, 1::int)) ! nat (int c + int i * snd (1::int, 1::int)) = pid"
      by (simp add: nat_add_distrib)
  qed
qed

lemma run_at_anti:
  assumes "0 < w" "r < R"
  shows "run_at R C w b pid (int r) (int c) (- 1, 1) \<longleftrightarrow>
         w \<le> Suc r \<and> c + w \<le> C \<and> (\<forall>i<w. b ! (r - i) ! (c + i) = pid)"
proof
  assume h: "run_at R C w b pid (int r) (int c) (- 1, 1)"
  have "w - 1 \<in> {0..<w}" using assms(1) by simp
  with h have "0 \<le> int r + int (w - 1) * (- 1) \<and> int c + int (w - 1) < int C"
    unfolding run_at_def by fastforce
  then have b1: "w \<le> Suc r" and b2: "c + w \<le> C" using assms(1) by linarith+
  moreover have "\<forall>i<w. b ! (r - i) ! (c + i) = pid"
  proof (intro allI impI)
    fix i assume i: "i < w"
    then have "i \<in> {0..<w}" by simp
    with h have "b ! nat (int r + int i * (- 1)) ! nat (int c + int i * 1) = pid"
      unfolding run_at_def by fastforce
    moreover have "nat (int r + int i * (- 1)) = r - i" using i b1 by simp
    ultimately show "b ! (r - i) ! (c + i) = pid" by (simp add: nat_add_distrib)
  qed
  ultimately show "w \<le> Suc r \<and> c + w \<le> C \<and> (\<forall>i<w. b ! (r - i) ! (c + i) = pid)" by simp
next
  assume h: "w \<le> Suc r \<and> c + w \<le> C \<and> (\<forall>i<w. b ! (r - i) ! (c + i) = pid)"
  show "run_at R C w b pid (int r) (int c) (- 1, 1)"
    unfolding run_at_def
  proof
    fix i assume "i \<in> {0..<w}"
    then have i: "i < w" by simp
    with h have "b ! (r - i) ! (c + i) = pid" "i \<le> r" "c + i < C" by auto
    moreover from \<open>i \<le> r\<close> have "nat (int r + int i * (- 1)) = r - i" by simp
    ultimately show "0 \<le> int r + int i * fst (- 1::int, 1::int) \<and> int r + int i * fst (- 1::int, 1::int) < int R
                  \<and> 0 \<le> int c + int i * snd (- 1::int, 1::int) \<and> int c + int i * snd (- 1::int, 1::int) < int C
                  \<and> b ! nat (int r + int i * fst (- 1::int, 1::int)) ! nat (int c + int i * snd (- 1::int, 1::int)) = pid"
      using assms(2) by (simp add: nat_add_distrib)
  qed
qed


lemma lt_Suc_diff: "(c < Suc C - w) = (c + w \<le> C)"
  by arith

lemma horiz_scan_iff:
  assumes "wf_board R C b" "0 < w"
  shows "list_ex (\<lambda>row. list_ex (\<lambda>col. all_eq pid (horiz_window b w row col)) [0..<Suc C - w]) [0..<R]
     \<longleftrightarrow> (\<exists>r\<in>{0..<R}. \<exists>c\<in>{0..<C}. run_at R C w b pid (int r) (int c) (0, 1))"
proof -
  have pt: "\<And>r c. r < R \<Longrightarrow> (c + w \<le> C \<and> all_eq pid (horiz_window b w r c))
       \<longleftrightarrow> (c < C \<and> run_at R C w b pid (int r) (int c) (0, 1))"
  proof -
    fix r c assume r: "r < R"
    have "c + w \<le> C \<Longrightarrow> all_eq pid (horiz_window b w r c) = (\<forall>i<w. b ! r ! (c + i) = pid)"
      using assms(1) r by (simp add: horiz_window_eq all_eq_map_upt)
    moreover have "c + w \<le> C \<Longrightarrow> c < C" using assms(2) by simp
    ultimately show "(c + w \<le> C \<and> all_eq pid (horiz_window b w r c))
       \<longleftrightarrow> (c < C \<and> run_at R C w b pid (int r) (int c) (0, 1))"
      unfolding run_at_horiz[OF assms(2) r] by blast
  qed
  have L: "list_ex (\<lambda>row. list_ex (\<lambda>col. all_eq pid (horiz_window b w row col)) [0..<Suc C - w]) [0..<R]
     \<longleftrightarrow> (\<exists>r. r < R \<and> (\<exists>c. c + w \<le> C \<and> all_eq pid (horiz_window b w r c)))"
    unfolding list_ex_iff Bex_def set_upt set_upto atLeastLessThan_iff atLeastAtMost_iff lt_Suc_diff
    by simp
  have Rr: "(\<exists>r\<in>{0..<R}. \<exists>c\<in>{0..<C}. run_at R C w b pid (int r) (int c) (0, 1))
     \<longleftrightarrow> (\<exists>r. r < R \<and> (\<exists>c. c < C \<and> run_at R C w b pid (int r) (int c) (0, 1)))"
    unfolding Bex_def atLeastLessThan_iff by simp
  show ?thesis unfolding L Rr using pt by blast
qed

lemma vert_scan_iff:
  assumes "wf_board R C b" "0 < w"
  shows "list_ex (\<lambda>row. list_ex (\<lambda>col. all_eq pid (vert_window b w row col)) [0..<C]) [0..<Suc R - w]
     \<longleftrightarrow> (\<exists>r\<in>{0..<R}. \<exists>c\<in>{0..<C}. run_at R C w b pid (int r) (int c) (1, 0))"
proof -
  have pt: "\<And>r c. c < C \<Longrightarrow> (r + w \<le> R \<and> all_eq pid (vert_window b w r c))
       \<longleftrightarrow> (r < R \<and> run_at R C w b pid (int r) (int c) (1, 0))"
  proof -
    fix r c assume c: "c < C"
    have "r + w \<le> R \<Longrightarrow> all_eq pid (vert_window b w r c) = (\<forall>i<w. b ! (r + i) ! c = pid)"
      using assms(1) by (simp add: vert_window_eq all_eq_map_upt)
    moreover have "r + w \<le> R \<Longrightarrow> r < R" using assms(2) by simp
    ultimately show "(r + w \<le> R \<and> all_eq pid (vert_window b w r c))
       \<longleftrightarrow> (r < R \<and> run_at R C w b pid (int r) (int c) (1, 0))"
      unfolding run_at_vert[OF assms(2) c] by blast
  qed
  have L: "list_ex (\<lambda>row. list_ex (\<lambda>col. all_eq pid (vert_window b w row col)) [0..<C]) [0..<Suc R - w]
     \<longleftrightarrow> (\<exists>r. r + w \<le> R \<and> (\<exists>c. c < C \<and> all_eq pid (vert_window b w r c)))"
    unfolding list_ex_iff Bex_def set_upt set_upto atLeastLessThan_iff atLeastAtMost_iff lt_Suc_diff
    by simp
  have Rr: "(\<exists>r\<in>{0..<R}. \<exists>c\<in>{0..<C}. run_at R C w b pid (int r) (int c) (1, 0))
     \<longleftrightarrow> (\<exists>r. r < R \<and> (\<exists>c. c < C \<and> run_at R C w b pid (int r) (int c) (1, 0)))"
    unfolding Bex_def atLeastLessThan_iff by simp
  show ?thesis unfolding L Rr using pt by blast
qed

lemma vert_scan_swap:
  "list_ex (\<lambda>col. list_ex (\<lambda>row. all_eq pid (vert_window b w row col)) rs) cs
     \<longleftrightarrow> list_ex (\<lambda>row. list_ex (\<lambda>col. all_eq pid (vert_window b w row col)) cs) rs"
  unfolding list_ex_iff by blast

lemma diag_scan_iff:
  assumes "0 < w"
  shows "list_ex (\<lambda>row. list_ex (\<lambda>col. all_eq pid (diag_window b w row col)) [0..<Suc C - w]) [0..<Suc R - w]
     \<longleftrightarrow> (\<exists>r\<in>{0..<R}. \<exists>c\<in>{0..<C}. run_at R C w b pid (int r) (int c) (1, 1))"
proof -
  have pt: "\<And>r c. (r + w \<le> R \<and> c + w \<le> C \<and> all_eq pid (diag_window b w r c))
       \<longleftrightarrow> (r < R \<and> c < C \<and> run_at R C w b pid (int r) (int c) (1, 1))"
  proof -
    fix r c
    have "all_eq pid (diag_window b w r c) = (\<forall>i<w. b ! (r + i) ! (c + i) = pid)"
      by (simp add: diag_window_def all_eq_map_upt)
    moreover have "r + w \<le> R \<Longrightarrow> r < R" "c + w \<le> C \<Longrightarrow> c < C" using assms by simp_all
    ultimately show "(r + w \<le> R \<and> c + w \<le> C \<and> all_eq pid (diag_window b w r c))
       \<longleftrightarrow> (r < R \<and> c < C \<and> run_at R C w b pid (int r) (int c) (1, 1))"
      unfolding run_at_diag[OF assms] by blast
  qed
  have L: "list_ex (\<lambda>row. list_ex (\<lambda>col. all_eq pid (diag_window b w row col)) [0..<Suc C - w]) [0..<Suc R - w]
     \<longleftrightarrow> (\<exists>r. r + w \<le> R \<and> (\<exists>c. c + w \<le> C \<and> all_eq pid (diag_window b w r c)))"
    unfolding list_ex_iff Bex_def set_upt set_upto atLeastLessThan_iff atLeastAtMost_iff lt_Suc_diff
    by simp
  have Rr: "(\<exists>r\<in>{0..<R}. \<exists>c\<in>{0..<C}. run_at R C w b pid (int r) (int c) (1, 1))
     \<longleftrightarrow> (\<exists>r. r < R \<and> (\<exists>c. c < C \<and> run_at R C w b pid (int r) (int c) (1, 1)))"
    unfolding Bex_def atLeastLessThan_iff by simp
  show ?thesis unfolding L Rr using pt by blast
qed

lemma anti_scan_iff:
  assumes "0 < w"
  shows "list_ex (\<lambda>row. list_ex (\<lambda>col. all_eq pid (anti_window b w row col)) [0..<Suc C - w])
            [int w - 1..int R - 1]
     \<longleftrightarrow> (\<exists>r\<in>{0..<R}. \<exists>c\<in>{0..<C}. run_at R C w b pid (int r) (int c) (- 1, 1))"
proof -
  have pt: "\<And>r c. r < R \<Longrightarrow> (w \<le> Suc r \<and> c + w \<le> C \<and> all_eq pid (anti_window b w (int r) c))
       \<longleftrightarrow> (c < C \<and> run_at R C w b pid (int r) (int c) (- 1, 1))"
  proof -
    fix r c assume r: "r < R"
    have "w \<le> Suc r \<Longrightarrow> all_eq pid (anti_window b w (int r) c) = (\<forall>i<w. b ! (r - i) ! (c + i) = pid)"
    proof -
      assume wr: "w \<le> Suc r"
      have "\<And>i. i < w \<Longrightarrow> nat (int r - int i) = r - i" using wr by simp
      then show ?thesis by (simp add: anti_window_def all_eq_map_upt)
    qed
    moreover have "c + w \<le> C \<Longrightarrow> c < C" using assms by simp
    ultimately show "(w \<le> Suc r \<and> c + w \<le> C \<and> all_eq pid (anti_window b w (int r) c))
       \<longleftrightarrow> (c < C \<and> run_at R C w b pid (int r) (int c) (- 1, 1))"
      unfolding run_at_anti[OF assms r] by blast
  qed
  have rows: "\<And>P. (\<exists>row. int w - 1 \<le> row \<and> row \<le> int R - 1 \<and> P row)
       \<longleftrightarrow> (\<exists>r. r < R \<and> w \<le> Suc r \<and> P (int r))"
  proof
    fix P assume "\<exists>row. int w - 1 \<le> row \<and> row \<le> int R - 1 \<and> P row"
    then obtain row where rc: "int w - 1 \<le> row" "row \<le> int R - 1" "P row" by blast
    from rc(1) assms have "0 \<le> row" by linarith
    then obtain r where r: "row = int r" by (metis nat_0_le)
    with rc(1,2) have "r < R" "w \<le> Suc r" by linarith+
    with rc(3) r show "\<exists>r. r < R \<and> w \<le> Suc r \<and> P (int r)" by blast
  next
    fix P assume "\<exists>r. r < R \<and> w \<le> Suc r \<and> P (int r)"
    then obtain r where rc: "r < R" "w \<le> Suc r" "P (int r)" by blast
    then have "int w - 1 \<le> int r" "int r \<le> int R - 1" by linarith+
    with rc(3) show "\<exists>row. int w - 1 \<le> row \<and> row \<le> int R - 1 \<and> P row" by blast
  qed
  have L: "list_ex (\<lambda>row. list_ex (\<lambda>col. all_eq pid (anti_window b w row col)) [0..<Suc C - w])
            [int w - 1..int R - 1]
     \<longleftrightarrow> (\<exists>row. int w - 1 \<le> row \<and> row \<le> int R - 1 \<and>
            (\<exists>c. c + w \<le> C \<and> all_eq pid (anti_window b w row c)))"
    unfolding list_ex_iff Bex_def set_upt set_upto atLeastLessThan_iff atLeastAtMost_iff lt_Suc_diff
    by simp
  have Rr: "(\<exists>r\<in>{0..<R}. \<exists>c\<in>{0..<C}. run_at R C w b pid (int r) (int c) (- 1, 1))
     \<longleftrightarrow> (\<exists>r. r < R \<and> (\<exists>c. c < C \<and> run_at R C w b pid (int r) (int c) (- 1, 1)))"
    unfolding Bex_def atLeastLessThan_iff by simp
  show ?thesis unfolding L Rr rows using pt by blast
qed

lemma has_run_cases:
  "has_run R C w b pid \<longleftrightarrow>
     (\<exists>r\<in>{0..<R}. \<exists>c\<in>{0..<C}. run_at R C w b pid (int r) (int c) (0, 1))
   \<or> (\<exists>r\<in>{0..<R}. \<exists>c\<in>{0..<C}. run_at R C w b pid (int r) (int c) (1, 0))
   \<or> (\<exists>r\<in>{0..<R}. \<exists>c\<in>{0..<C}. run_at R C w b pid (int r) (int c) (1, 1))
   \<or> (\<exists>r\<in>{0..<R}. \<exists>c\<in>{0..<C}. run_at R C w b pid (int r) (int c) (- 1, 1))"
  by (simp add: has_run_def directions_def)

lemma gomoku_scan_iff:
  assumes "wf_board (board_size g) (board_size g) b" "0 < gomoku_win_length g"
  shows "gomoku_scan g b pid \<longleftrightarrow> has_run (board_size g) (board_size g) (gomoku_win_length g) b pid"
  unfolding gomoku_scan_def Let_def has_run_cases vert_scan_swap
    horiz_scan_iff[OF assms] vert_scan_iff[OF assms] diag_scan_iff[OF assms(2)]
    anti_scan_iff[OF assms(2)]
  by (rule refl)

lemma connect4_scan_iff:
  assumes "wf_board (rows g) (cols g) b" "0 < connect4_win_length g"
  shows "connect4_scan g b pid \<longleftrightarrow> has_run (rows g) (cols g) (connect4_win_length g) b pid"
  unfolding connect4_scan_def Let_def has_run_cases
    horiz_scan_iff[OF assms] vert_scan_iff[OF assms] diag_scan_iff[OF assms(2)]
    anti_scan_iff[OF assms(2)]
  by (rule refl)

lemma gomoku_get_winner_spec:
  assumes "wf_board (board_size g) (board_size g) b" "0 < gomoku_win_length g"
  shows "gomoku_get_winner g b = spec_winner (board_size g) (board_size g) (gomoku_win_length g) b"
  by (simp add: gomoku_get_winner_def spec_winner_def gomoku_scan_iff[OF assms])

lemma connect4_get_winner_spec:
  assumes "wf_board (rows g) (cols g) b" "0 < connect4_win_length g"
  shows "connect4_get_winner g b = spec_winner (rows g) (cols g) (connect4_win_length g) b"
  by (simp add: connect4_get_winner_def spec_winner_def connect4_scan_iff[OF assms])

lemma spec_winner_None: "spec_winner R C w b = None \<longleftrightarrow> \<not> has_run R C w b 1 \<and> \<not> has_run R C w b 2"
  by (simp add: spec_winner_def)

lemma spec_winner_Some:
  "spec_winner R C w b = Some p \<longleftrightarrow>
     (p = 0 \<and> has_run R C w b 1) \<or> (p = 1 \<and> \<not> has_run R C w b 1 \<and> has_run R C w b 2)"
  by (auto simp: spec_winner_def)


text \<open>
  The boards of the specification's win-scan examples: 5 x 5, win length 3, with player 0 on
  (2,0), (2,1), (2,2); with player 1 on the column (0,2), (1,2), (2,2); with player 0 on the
  diagonal (0,0), (1,1), (2,2).
\<close>

lemma gomoku_winner_examples:
  "gomoku_get_winner \<lparr>board_size = 5, gomoku_win_length = 3\<rparr>
     [[0,0,0,0,0], [0,0,0,0,0], [1,1,1,0,0], [0,0,0,0,0], [0,0,0,0,0]] = Some 0"
  "gomoku_get_winner \<lparr>board_size = 5, gomoku_win_length = 3\<rparr>
     [[0,0,2,0,0], [0,0,2,0,0], [0,0,2,0,0], [0,0,0,0,0], [0,0,0,0,0]] = Some 1"
  "gomoku_get_winner \<lparr>board_size = 5, gomoku_win_length = 3\<rparr>
     [[1,0,0,0,0], [0,1,0,0,0], [0,0,1,0,0], [0,0,0,0,0], [0,0,0,0,0]] = Some 0"
  by code_simp+

lemma connect4_winner_example:
  "connect4_get_winner \<lparr>rows = 3, cols = 4, connect4_win_length = 3\<rparr>
     [[0,0,2,0], [0,2,1,0], [2,1,1,1]] = Some 0"
  by code_simp

text \<open>
  C3. For a board of the game's shape and a positive win length, \<open>get_winner\<close> of either
  game returns what the specification's scan returns: player 0 when a window of
  \<open>win_length\<close> cells along one of (0,1), (1,0), (1,1), (-1,1) lies on the board and holds
  stone 1 throughout; otherwise player 1 when such a window holds stone 2; otherwise no
  winner. The scan looks for stone 1 in all four directions before it looks for stone 2,
  so with runs of both players it returns player 0. No winner is returned exactly when
  neither stone has a run, a full board included.
\<close>

theorem get_winner_is_spec_winner:
  "(wf_board (board_size g) (board_size g) s \<and> 0 < gomoku_win_length g \<longrightarrow>
       gomoku_get_winner g s = spec_winner (board_size g) (board_size g) (gomoku_win_length g) s
     \<and> (gomoku_get_winner g s = Some 0
          \<longleftrightarrow> has_run (board_size g) (board_size g) (gomoku_win_length g) s 1)
     \<and> (gomoku_get_winner g s = Some 1
          \<longleftrightarrow> \<not> has_run (board_size g) (board_size g) (gomoku_win_length g) s 1
             \<and> has_run (board_size g) (board_size g) (gomoku_win_length g) s 2)
     \<and> (gomoku_get_winner g s = None
          \<longleftrightarrow> \<not> has_run (board_size g) (board_size g) (gomoku_win_length g) s 1
             \<and> \<not> has_run (board_size g) (board_size g) (gomoku_win_length g) s 2))
   \<and> (wf_board (rows c) (cols c) t \<and> 0 < connect4_win_length c \<longrightarrow>
       connect4_get_winner c t = spec_winner (rows c) (cols c) (connect4_win_length c) t
     \<and> (connect4_get_winner c t = Some 0
          \<longleftrightarrow> has_run (rows c) (cols c) (connect4_win_length c) t 1)
     \<and> (connect4_get_winner c t = Some 1
          \<longleftrightarrow> \<not> has_run (rows c) (cols c) (connect4_win_length c) t 1
             \<and> has_run (rows c) (cols c) (connect4_win_length c) t 2)
     \<and> (connect4_get_winner c t = None
          \<longleftrightarrow> \<not> has_run (rows c) (cols c) (connect4_win_length c) t 1
             \<and> \<not> has_run (rows c) (cols c) (connect4_win_length c) t 2))"
proof (intro conjI impI)
  assume "wf_board (board_size g) (board_size g) s \<and> 0 < gomoku_win_length g"
  then have eq: "gomoku_get_winner g s
      = spec_winner (board_size g) (board_size g) (gomoku_win_length g) s"
    by (simp add: gomoku_get_winner_spec)
  show "gomoku_get_winner g s
      = spec_winner (board_size g) (board_size g) (gomoku_win_length g) s" by (rule eq)
  show "gomoku_get_winner g s = Some 0
          \<longleftrightarrow> has_run (board_size g) (board_size g) (gomoku_win_length g) s 1"
    unfolding eq spec_winner_Some by simp
  show "gomoku_get_winner g s = Some 1
          \<longleftrightarrow> \<not> has_run (board_size g) (board_size g) (gomoku_win_length g) s 1
             \<and> has_run (board_size g) (board_size g) (gomoku_win_length g) s 2"
    unfolding eq spec_winner_Some by simp
  show "gomoku_get_winner g s = None
          \<longleftrightarrow> \<not> has_run (board_size g) (board_size g) (gomoku_win_length g) s 1
             \<and> \<not> has_run (board_size g) (board_size g) (gomoku_win_length g) s 2"
    unfolding eq by (rule spec_winner_None)
next
  assume "wf_board (rows c) (cols c) t \<and> 0 < connect4_win_length c"
  then have eq: "connect4_get_winner c t
      = spec_winner (rows c) (cols c) (connect4_win_length c) t"
    by (simp add: connect4_get_winner_spec)
  show "connect4_get_winner c t
      = spec_winner (rows c) (cols c) (connect4_win_length c) t" by (rule eq)
  show "connect4_get_winner c t = Some 0
          \<longleftrightarrow> has_run (rows c) (cols c) (connect4_win_length c) t 1"
    unfolding eq spec_winner_Some by simp
  show "connect4_get_winner c t = Some 1
          \<longleftrightarrow> \<not> has_run (rows c) (cols c) (connect4_win_length c) t 1
             \<and> has_run (rows c) (cols c) (connect4_win_length c) t 2"
    unfolding eq spec_winner_Some by simp
  show "connect4_get_winner c t = None
          \<longleftrightarrow> \<not> has_run (rows c) (cols c) (connect4_win_length c) t 1
             \<and> \<not> has_run (rows c) (cols c) (connect4_win_length c) t 2"
    unfolding eq by (rule spec_winner_None)
qed

theorem get_winner_is_spec_winner_witness:
  "wf_board 5 5 [[0,0,2,0,0], [0,0,2,0,0], [0,0,2,0,0], [0,0,0,0,0], [0,0,0,0,0]]
   \<and> gomoku_get_winner \<lparr>board_size = 5, gomoku_win_length = 3\<rparr>
       [[0,0,2,0,0], [0,0,2,0,0], [0,0,2,0,0], [0,0,0,0,0], [0,0,0,0,0]] = Some 1
   \<and> spec_winner 5 5 3 [[0,0,2,0,0], [0,0,2,0,0], [0,0,2,0,0], [0,0,0,0,0], [0,0,0,0,0]] = Some 1
   \<and> has_run 5 5 3 [[0,0,2,0,0], [0,0,2,0,0], [0,0,2,0,0], [0,0,0,0,0], [0,0,0,0,0]] 2
   \<and> wf_board 3 4 [[0,0,2,0], [0,2,1,0], [2,1,1,1]]
   \<and> connect4_get_winner \<lparr>rows = 3, cols = 4, connect4_win_length = 3\<rparr>
       [[0,0,2,0], [0,2,1,0], [2,1,1,1]] = Some 0
   \<and> has_run 3 4 3 [[0,0,2,0], [0,2,1,0], [2,1,1,1]] 1"
  using get_winner_is_spec_winner[of "\<lparr>board_size = 5, gomoku_win_length = 3\<rparr>"
      "[[0,0,2,0,0], [0,0,2,0,0], [0,0,2,0,0], [0,0,0,0,0], [0,0,0,0,0]]"
      "\<lparr>rows = 3, cols = 4, connect4_win_length = 3\<rparr>" "[[0,0,2,0], [0,2,1,0], [2,1,1,1]]"]
    gomoku_winner_examples(2) connect4_winner_example
  by (simp add: wf_board_def)

section \<open>Terminal states\<close>

lemma zeros_nth: "r < R \<Longrightarrow> c < C \<Longrightarrow> zeros R C ! r ! c = 0"
  by (simp add: zeros_def)

lemma no_run_zeros:
  assumes "0 < w" "pid \<noteq> 0"
  shows "\<not> has_run R C w (zeros R C) pid"
proof
  assume "has_run R C w (zeros R C) pid"
  then obtain d r c where rc: "r < R" "c < C" and run: "run_at R C w (zeros R C) pid (int r) (int c) d"
    unfolding has_run_def by auto
  have "0 \<in> {0..<w}" using assms(1) by simp
  with run have "zeros R C ! nat (int r + int 0 * fst d) ! nat (int c + int 0 * snd d) = pid"
    unfolding run_at_def by blast
  then have "zeros R C ! r ! c = pid" by simp
  with rc assms(2) show False by (simp add: zeros_nth)
qed

lemma board_full_nth:
  assumes "wf_board R C b" "board_full b" "r < R" "c < C"
  shows "b ! r ! c \<noteq> 0"
proof -
  from assms(1,3) have "r < length b" "length (b ! r) = C"
    by (simp_all add: wf_board_def wf_board_row_length[OF assms(1,3)])
  then have "b ! r \<in> set b" "b ! r ! c \<in> set (b ! r)" using assms(4) by simp_all
  with assms(2) show ?thesis by (auto simp: board_full_def list_all_iff)
qed

lemma gomoku_full_no_moves:
  assumes "wf_board (board_size g) (board_size g) b" "board_full b"
  shows "gomoku_get_legal_moves g b p = []"
proof -
  have "\<And>m. m \<notin> set (gomoku_get_legal_moves g b p)"
  proof
    fix m assume m: "m \<in> set (gomoku_get_legal_moves g b p)"
    obtain r c where "m = (r, c)" by (cases m)
    with m have "0 \<le> r" "r < int (board_size g)" "0 \<le> c" "c < int (board_size g)"
      "b ! nat r ! nat c = 0" by (simp_all add: gomoku_legal_iff)
    moreover then have "b ! nat r ! nat c \<noteq> 0"
      using board_full_nth[OF assms, of "nat r" "nat c"] by simp
    ultimately show False by simp
  qed
  then show ?thesis by (cases "gomoku_get_legal_moves g b p") auto
qed

lemma connect4_full_no_moves:
  assumes "wf_board (rows g) (cols g) b" "board_full b" "0 < rows g"
  shows "connect4_get_legal_moves g b p = []"
proof -
  have "\<And>m. m \<notin> set (connect4_get_legal_moves g b p)"
  proof
    fix m assume m: "m \<in> set (connect4_get_legal_moves g b p)"
    then have "0 \<le> m" "m < int (cols g)" "b ! 0 ! nat m = 0"
      by (simp_all add: connect4_legal_iff)
    moreover then have "b ! 0 ! nat m \<noteq> 0"
      using board_full_nth[OF assms(1,2,3), of "nat m"] by simp
    ultimately show False by simp
  qed
  then show ?thesis by (cases "connect4_get_legal_moves g b p") auto
qed

lemma gomoku_empty_has_moves:
  assumes "0 < board_size g"
  shows "gomoku_get_legal_moves g (gomoku_reset g) p \<noteq> []"
proof -
  have "(0, 0) \<in> set (gomoku_get_legal_moves g (gomoku_reset g) p)"
    using assms by (simp add: gomoku_legal_iff gomoku_reset_def zeros_nth)
  then show ?thesis by auto
qed

lemma connect4_empty_has_moves:
  assumes "0 < rows g" "0 < cols g"
  shows "connect4_get_legal_moves g (connect4_reset g) p \<noteq> []"
proof -
  have "0 \<in> set (connect4_get_legal_moves g (connect4_reset g) p)"
    using assms by (simp add: connect4_legal_iff connect4_reset_def zeros_nth)
  then show ?thesis by auto
qed

text \<open>
  C4. In both games \<open>is_terminal\<close> holds exactly when \<open>get_winner\<close> returns a player or
  \<open>get_legal_moves\<close>, asked for player 0, returns no move. So the empty board of a game with
  at least one cell and a positive win length is not terminal and has no winner, and a
  board of the game's shape without an empty cell and without a run of \<open>win_length\<close> stones
  of either player is terminal and has no winner.
\<close>

theorem terminal_iff_winner_or_full:
  "(gomoku_is_terminal g s
      \<longleftrightarrow> gomoku_get_winner g s \<noteq> None \<or> gomoku_get_legal_moves g s 0 = [])
   \<and> (0 < board_size g \<and> 0 < gomoku_win_length g \<longrightarrow>
        \<not> gomoku_is_terminal g (gomoku_reset g) \<and> gomoku_get_winner g (gomoku_reset g) = None)
   \<and> (wf_board (board_size g) (board_size g) s \<and> 0 < gomoku_win_length g \<and> board_full s
        \<and> \<not> has_run (board_size g) (board_size g) (gomoku_win_length g) s 1
        \<and> \<not> has_run (board_size g) (board_size g) (gomoku_win_length g) s 2 \<longrightarrow>
        gomoku_is_terminal g s \<and> gomoku_get_winner g s = None)
   \<and> (connect4_is_terminal c t
      \<longleftrightarrow> connect4_get_winner c t \<noteq> None \<or> connect4_get_legal_moves c t 0 = [])
   \<and> (0 < rows c \<and> 0 < cols c \<and> 0 < connect4_win_length c \<longrightarrow>
        \<not> connect4_is_terminal c (connect4_reset c) \<and> connect4_get_winner c (connect4_reset c) = None)
   \<and> (wf_board (rows c) (cols c) t \<and> 0 < rows c \<and> 0 < connect4_win_length c \<and> board_full t
        \<and> \<not> has_run (rows c) (cols c) (connect4_win_length c) t 1
        \<and> \<not> has_run (rows c) (cols c) (connect4_win_length c) t 2 \<longrightarrow>
        connect4_is_terminal c t \<and> connect4_get_winner c t = None)"
proof (intro conjI impI)
  show "gomoku_is_terminal g s
      \<longleftrightarrow> gomoku_get_winner g s \<noteq> None \<or> gomoku_get_legal_moves g s 0 = []"
    by (simp add: gomoku_is_terminal_def)
  show "connect4_is_terminal c t
      \<longleftrightarrow> connect4_get_winner c t \<noteq> None \<or> connect4_get_legal_moves c t 0 = []"
    by (simp add: connect4_is_terminal_def)
next
  assume h: "0 < board_size g \<and> 0 < gomoku_win_length g"
  have wf: "wf_board (board_size g) (board_size g) (gomoku_reset g)"
    by (simp add: gomoku_reset_def wf_board_zeros)
  have "gomoku_get_winner g (gomoku_reset g)
      = spec_winner (board_size g) (board_size g) (gomoku_win_length g) (gomoku_reset g)"
    using wf h by (simp add: gomoku_get_winner_spec)
  then show w: "gomoku_get_winner g (gomoku_reset g) = None"
    using h by (simp add: spec_winner_def gomoku_reset_def no_run_zeros)
  show "\<not> gomoku_is_terminal g (gomoku_reset g)"
    using w h by (simp add: gomoku_is_terminal_def gomoku_empty_has_moves)
next
  assume h: "wf_board (board_size g) (board_size g) s \<and> 0 < gomoku_win_length g \<and> board_full s
        \<and> \<not> has_run (board_size g) (board_size g) (gomoku_win_length g) s 1
        \<and> \<not> has_run (board_size g) (board_size g) (gomoku_win_length g) s 2"
  then show w: "gomoku_get_winner g s = None"
    by (simp add: gomoku_get_winner_spec spec_winner_def)
  show "gomoku_is_terminal g s"
    using h by (simp add: gomoku_is_terminal_def gomoku_full_no_moves)
next
  assume h: "0 < rows c \<and> 0 < cols c \<and> 0 < connect4_win_length c"
  have wf: "wf_board (rows c) (cols c) (connect4_reset c)"
    by (simp add: connect4_reset_def wf_board_zeros)
  have "connect4_get_winner c (connect4_reset c)
      = spec_winner (rows c) (cols c) (connect4_win_length c) (connect4_reset c)"
    using wf h by (simp add: connect4_get_winner_spec)
  then show w: "connect4_get_winner c (connect4_reset c) = None"
    using h by (simp add: spec_winner_def connect4_reset_def no_run_zeros)
  show "\<not> connect4_is_terminal c (connect4_reset c)"
    using w h by (simp add: connect4_is_terminal_def connect4_empty_has_moves)
next
  assume h: "wf_board (rows c) (cols c) t \<and> 0 < rows c \<and> 0 < connect4_win_length c \<and> board_full t
        \<and> \<not> has_run (rows c) (cols c) (connect4_win_length c) t 1
        \<and> \<not> has_run (rows c) (cols c) (connect4_win_length c) t 2"
  then show w: "connect4_get_winner c t = None"
    by (simp add: connect4_get_winner_spec spec_winner_def)
  show "connect4_is_terminal c t"
    using h by (simp add: connect4_is_terminal_def connect4_full_no_moves)
qed


lemma drawn_board_no_run:
  "\<not> has_run 3 3 3 [[1,2,1], [1,2,2], [2,1,1]] 1"
  "\<not> has_run 3 3 3 [[1,2,1], [1,2,2], [2,1,1]] 2"
proof -
  have wf: "wf_board (board_size \<lparr>board_size = 3, gomoku_win_length = 3\<rparr>)
      (board_size \<lparr>board_size = 3, gomoku_win_length = 3\<rparr>) [[1,2,1], [1,2,2], [2,1,1]]"
    by (simp add: wf_board_def)
  have pos: "0 < gomoku_win_length \<lparr>board_size = 3, gomoku_win_length = 3\<rparr>" by simp
  have "\<not> gomoku_scan \<lparr>board_size = 3, gomoku_win_length = 3\<rparr> [[1,2,1], [1,2,2], [2,1,1]] 1"
    by code_simp
  then show "\<not> has_run 3 3 3 [[1,2,1], [1,2,2], [2,1,1]] 1"
    using gomoku_scan_iff[OF wf pos, of 1] by simp
  have "\<not> gomoku_scan \<lparr>board_size = 3, gomoku_win_length = 3\<rparr> [[1,2,1], [1,2,2], [2,1,1]] 2"
    by code_simp
  then show "\<not> has_run 3 3 3 [[1,2,1], [1,2,2], [2,1,1]] 2"
    using gomoku_scan_iff[OF wf pos, of 2] by simp
qed

theorem terminal_iff_winner_or_full_witness:
  "wf_board 3 3 [[1,2,1], [1,2,2], [2,1,1]] \<and> board_full [[1,2,1], [1,2,2], [2,1,1]]
   \<and> gomoku_is_terminal \<lparr>board_size = 3, gomoku_win_length = 3\<rparr> [[1,2,1], [1,2,2], [2,1,1]]
   \<and> gomoku_get_winner \<lparr>board_size = 3, gomoku_win_length = 3\<rparr> [[1,2,1], [1,2,2], [2,1,1]] = None
   \<and> \<not> gomoku_is_terminal \<lparr>board_size = 3, gomoku_win_length = 3\<rparr>
         (gomoku_reset \<lparr>board_size = 3, gomoku_win_length = 3\<rparr>)
   \<and> gomoku_get_winner \<lparr>board_size = 3, gomoku_win_length = 3\<rparr>
         (gomoku_reset \<lparr>board_size = 3, gomoku_win_length = 3\<rparr>) = None
   \<and> connect4_is_terminal \<lparr>rows = 3, cols = 3, connect4_win_length = 3\<rparr> [[1,2,1], [1,2,2], [2,1,1]]
   \<and> connect4_get_winner \<lparr>rows = 3, cols = 3, connect4_win_length = 3\<rparr> [[1,2,1], [1,2,2], [2,1,1]] = None
   \<and> \<not> connect4_is_terminal \<lparr>rows = 3, cols = 3, connect4_win_length = 3\<rparr>
         (connect4_reset \<lparr>rows = 3, cols = 3, connect4_win_length = 3\<rparr>)
   \<and> connect4_get_winner \<lparr>rows = 3, cols = 3, connect4_win_length = 3\<rparr>
         (connect4_reset \<lparr>rows = 3, cols = 3, connect4_win_length = 3\<rparr>) = None"
  using terminal_iff_winner_or_full[of "\<lparr>board_size = 3, gomoku_win_length = 3\<rparr>"
      "[[1,2,1], [1,2,2], [2,1,1]]" "\<lparr>rows = 3, cols = 3, connect4_win_length = 3\<rparr>"
      "[[1,2,1], [1,2,2], [2,1,1]]"] drawn_board_no_run
  by (auto simp: wf_board_def board_full_def)

section \<open>Move text round trip\<close>

lemma of_char_digit_char: "d < 10 \<Longrightarrow> (of_char (digit_char d) :: nat) = 48 + d"
  by (simp add: digit_char_def)

lemma is_digit_digit_char: "d < 10 \<Longrightarrow> is_digit (digit_char d)"
  by (simp add: is_digit_def of_char_digit_char)

lemma digit_val_digit_char: "d < 10 \<Longrightarrow> digit_val (digit_char d) = d"
  by (simp add: digit_val_def of_char_digit_char)

lemma is_digit_not_space: "is_digit c \<Longrightarrow> \<not> is_space c"
  by (auto simp: is_digit_def is_space_def)

lemma is_digit_not_special:
  "is_digit c \<Longrightarrow> c \<noteq> CHR ''-'' \<and> c \<noteq> CHR ''+'' \<and> c \<noteq> CHR '','' \<and> c \<noteq> CHR ''_''"
  by (auto simp: is_digit_def)

declare str_nat.simps [simp del]

lemma str_nat_digits: "list_all is_digit (str_nat n)"
proof (induction n rule: str_nat.induct)
  case (1 n)
  show ?case
  proof (cases "n < 10")
    case True
    then show ?thesis by (subst str_nat.simps) (simp add: is_digit_digit_char)
  next
    case False
    with 1 have "list_all is_digit (str_nat (n div 10))" by simp
    moreover have "is_digit (digit_char (n mod 10))" by (simp add: is_digit_digit_char)
    ultimately show ?thesis using False by (subst str_nat.simps) simp
  qed
qed

lemma str_nat_nonempty: "str_nat n \<noteq> []"
  by (subst str_nat.simps) simp

lemma py_digits_snoc:
  "list_all is_digit ds \<Longrightarrow> d < 10 \<Longrightarrow>
   py_digits acc (ds @ [digit_char d]) = map_option (\<lambda>v. 10 * v + d) (py_digits acc ds)"
  by (induction ds arbitrary: acc) (simp_all add: is_digit_digit_char digit_val_digit_char)

lemma py_nat_snoc:
  "list_all is_digit ds \<Longrightarrow> ds \<noteq> [] \<Longrightarrow> d < 10 \<Longrightarrow>
   py_nat (ds @ [digit_char d]) = map_option (\<lambda>v. 10 * v + d) (py_nat ds)"
  by (cases ds) (simp_all add: py_nat_def py_digits_snoc)

lemma py_nat_str_nat: "py_nat (str_nat n) = Some n"
proof (induction n rule: str_nat.induct)
  case (1 n)
  show ?case
  proof (cases "n < 10")
    case True
    then show ?thesis
      by (subst str_nat.simps) (simp add: py_nat_def is_digit_digit_char digit_val_digit_char)
  next
    case False
    with 1 have ih: "py_nat (str_nat (n div 10)) = Some (n div 10)" by simp
    have "py_nat (str_nat (n div 10) @ [digit_char (n mod 10)])
        = map_option (\<lambda>v. 10 * v + n mod 10) (py_nat (str_nat (n div 10)))"
      by (rule py_nat_snoc) (simp_all add: str_nat_digits str_nat_nonempty)
    then show ?thesis using False ih by (subst str_nat.simps) simp
  qed
qed

lemma strip_digits_like:
  assumes "s \<noteq> []" "\<not> is_space (hd s)" "\<not> is_space (last s)"
  shows "strip s = s"
proof -
  from assms(1,2) have "dropWhile is_space s = s" by (cases s) simp_all
  moreover from assms(1,3) have "dropWhile is_space (rev s) = rev s"
    by (cases "rev s") (simp_all add: hd_rev[symmetric])
  ultimately show ?thesis by (simp add: strip_def)
qed

lemma str_nat_ends:
  "is_digit (hd (str_nat n))" "is_digit (last (str_nat n))"
  using str_nat_digits[of n] str_nat_nonempty[of n]
  by (auto simp: list_all_iff)

lemma minus_not_space: "\<not> is_space CHR ''-''"
  by (simp add: is_space_def)

lemma py_int_str_int: "py_int (str_int i) = Some i"
proof (cases "i < 0")
  case True
  have "strip (CHR ''-'' # str_nat (nat (- i))) = CHR ''-'' # str_nat (nat (- i))"
    by (rule strip_digits_like)
      (simp_all add: minus_not_space str_nat_nonempty str_nat_ends is_digit_not_space)
  then show ?thesis using True by (simp add: py_int_def str_int_def py_nat_str_nat)
next
  case False
  have st: "strip (str_nat (nat i)) = str_nat (nat i)"
    by (rule strip_digits_like) (simp_all add: str_nat_nonempty str_nat_ends is_digit_not_space)
  obtain c cs where cs: "str_nat (nat i) = c # cs"
    using str_nat_nonempty[of "nat i"] by (cases "str_nat (nat i)") auto
  with str_nat_ends(1)[of "nat i"] have "is_digit c" by simp
  then have "c \<noteq> CHR ''-''" "c \<noteq> CHR ''+''" using is_digit_not_special by blast+
  then have "py_int (str_nat (nat i)) = map_option int (py_nat (c # cs))"
    using st cs by (simp add: py_int_def)
  then show ?thesis using False cs py_nat_str_nat[of "nat i"] by (simp add: str_int_def)
qed


lemma str_int_no_comma: "CHR '','' \<notin> set (str_int i)"
proof -
  have "\<And>n. CHR '','' \<notin> set (str_nat n)"
    using str_nat_digits is_digit_not_special by (fastforce simp: list_all_iff)
  then show ?thesis by (simp add: str_int_def)
qed

lemma split_on_no_sep: "sep \<notin> set xs \<Longrightarrow> split_on sep xs = [xs]"
  by (induction xs) auto

lemma split_on_append: "sep \<notin> set xs \<Longrightarrow> split_on sep (xs @ sep # ys) = xs # split_on sep ys"
  by (induction xs) auto

lemma gomoku_round_trip: "gomoku_string_to_move (gomoku_move_to_string (r, c)) = Inr (r, c)"
proof -
  have "split_on CHR '','' (str_int r @ CHR '','' # str_int c) = [str_int r, str_int c]"
    by (simp add: split_on_append split_on_no_sep str_int_no_comma)
  then show ?thesis
    by (simp add: gomoku_string_to_move_def gomoku_move_to_string_def py_int_str_int)
qed

lemma connect4_round_trip: "connect4_string_to_move (connect4_move_to_string m) = Inr m"
proof -
  have "lower ''Column '' = ''column ''" by code_simp
  then have "startswith (lower (''Column '' @ str_int m)) ''column ''"
    by (simp add: startswith_def lower_def)
  then show ?thesis
    by (simp add: connect4_string_to_move_def connect4_move_to_string_def py_int_str_int)
qed

lemma connect4_bare_integer: "connect4_string_to_move (str_int m) = Inr m"
proof -
  have "\<not> startswith (lower (str_int m)) ''column ''"
  proof
    assume a: "startswith (lower (str_int m)) ''column ''"
    then have "lower (str_int m) \<noteq> []" by (auto simp: startswith_def)
    then obtain x xs where x: "str_int m = x # xs" by (cases "str_int m") (auto simp: lower_def)
    with a have lc: "lower_char x = CHR ''c''" by (simp add: startswith_def lower_def)
    have "x = CHR ''-'' \<or> is_digit x"
      using x str_nat_ends(1)[of "nat m"] by (auto simp: str_int_def split: if_splits)
    then show False
    proof
      assume "x = CHR ''-''"
      then show False using lc by (simp add: lower_char_def)
    next
      assume "is_digit x"
      then have "lower_char x = x" by (simp add: lower_char_def is_digit_def)
      with lc \<open>is_digit x\<close> show False by (simp add: is_digit_def)
    qed
  qed
  then show ?thesis by (simp add: connect4_string_to_move_def py_int_str_int)
qed

lemma gomoku_string_to_move_iff:
  "gomoku_string_to_move s = Inr (r, c) \<longleftrightarrow>
     (\<exists>p1 p2. split_on CHR '','' s = [p1, p2] \<and> py_int p1 = Some r \<and> py_int p2 = Some c)"
proof
  assume a: "gomoku_string_to_move s = Inr (r, c)"
  then have len: "length (split_on CHR '','' s) = 2"
    by (auto simp: gomoku_string_to_move_def Let_def split: if_splits)
  then obtain p1 p2 where sp: "split_on CHR '','' s = [p1, p2]"
    by (cases "split_on CHR '','' s" rule: list.exhaust)
       (auto simp: length_Suc_conv numeral_2_eq_2)
  with a have "py_int p1 = Some r \<and> py_int p2 = Some c"
    by (auto simp: gomoku_string_to_move_def Let_def split: option.splits)
  with sp show "\<exists>p1 p2. split_on CHR '','' s = [p1, p2] \<and> py_int p1 = Some r \<and> py_int p2 = Some c"
    by blast
next
  assume "\<exists>p1 p2. split_on CHR '','' s = [p1, p2] \<and> py_int p1 = Some r \<and> py_int p2 = Some c"
  then show "gomoku_string_to_move s = Inr (r, c)"
    by (auto simp: gomoku_string_to_move_def Let_def)
qed

lemma gomoku_string_to_move_fails:
  "(\<forall>rc. gomoku_string_to_move s \<noteq> Inr rc) \<longleftrightarrow> gomoku_string_to_move s = Inl ValueError"
  by (cases "gomoku_string_to_move s") (auto intro: error.exhaust
      simp: gomoku_string_to_move_def Let_def split: if_splits option.splits)

text \<open>
  C6. The move text of a Connect4 move is \<open>Column\<close>, a space and the decimal index; the
  parser reads it back to the same move and also reads the bare decimal index. The move
  text of a Gomoku move is the two decimal coordinates with a comma between them; the
  parser reads it back to the same move, and it returns a move exactly when the text has
  two comma-separated parts that both read as integers, and raises \<open>ValueError\<close>
  otherwise. This holds for every integer move, the legal moves among them.
\<close>

theorem move_text_round_trip:
  "connect4_move_to_string m = ''Column '' @ str_int m
   \<and> connect4_string_to_move (connect4_move_to_string m) = Inr m
   \<and> connect4_string_to_move (str_int m) = Inr m
   \<and> gomoku_move_to_string (r, c) = str_int r @ '','' @ str_int c
   \<and> gomoku_string_to_move (gomoku_move_to_string (r, c)) = Inr (r, c)
   \<and> (gomoku_string_to_move s = Inr (r', c') \<longleftrightarrow>
        (\<exists>p1 p2. split_on CHR '','' s = [p1, p2] \<and> py_int p1 = Some r' \<and> py_int p2 = Some c'))
   \<and> ((\<forall>rc. gomoku_string_to_move s \<noteq> Inr rc) \<longleftrightarrow> gomoku_string_to_move s = Inl ValueError)"
  using connect4_round_trip connect4_bare_integer gomoku_round_trip
    gomoku_string_to_move_iff gomoku_string_to_move_fails
  by (simp add: connect4_move_to_string_def gomoku_move_to_string_def)

lemma move_text_examples:
  "connect4_move_to_string 3 = ''Column 3''"
  "connect4_string_to_move ''column 3'' = Inr 3"
  "connect4_string_to_move ''3'' = Inr 3"
  "connect4_string_to_move ''third'' = Inl ValueError"
  "gomoku_move_to_string (2, 13) = ''2,13''"
  "gomoku_string_to_move ''2,13'' = Inr (2, 13)"
  "gomoku_string_to_move ''invalid'' = Inl ValueError"
  "gomoku_string_to_move ''1,2,3'' = Inl ValueError"
  by code_simp+

theorem move_text_round_trip_witness:
  "connect4_move_to_string 3 = ''Column 3''
   \<and> connect4_string_to_move ''Column 3'' = Inr 3
   \<and> gomoku_move_to_string (2, 13) = ''2,13''
   \<and> gomoku_string_to_move ''2,13'' = Inr (2, 13)"
proof -
  have a: "connect4_move_to_string 3 = ''Column 3''" by code_simp
  have b: "gomoku_move_to_string (2, 13) = ''2,13''" by code_simp
  have "connect4_string_to_move (connect4_move_to_string 3) = Inr 3
      \<and> gomoku_string_to_move (gomoku_move_to_string (2, 13)) = Inr (2, 13)"
    using move_text_round_trip[of 3 2 13] by blast
  then have "connect4_string_to_move ''Column 3'' = Inr 3
      \<and> gomoku_string_to_move ''2,13'' = Inr (2, 13)"
    unfolding a b .
  with a b show ?thesis by blast
qed

section \<open>Reading the reply of the language model\<close>






lemma random_choice_member:
  assumes "randbelow_ok rb" "seq \<noteq> []"
  shows "\<exists>m g'. random_choice rb seq g = (Inr m, g') \<and> m \<in> set seq"
proof -
  obtain k g' where k: "rb g (length seq) = (k, g')" by (cases "rb g (length seq)")
  from assms have "fst (rb g (length seq)) < length seq" by (simp add: randbelow_ok_def)
  with k have "k < length seq" by simp
  then show ?thesis using assms(2) k by (simp add: random_choice_def)
qed


lemma counter_randbelow_ok: "randbelow_ok counter_randbelow"
  by (simp add: randbelow_ok_def counter_randbelow_def)


lemma parse_response_examples:
  "parse_response counter_randbelow ''The best move is 1. MOVE: 1'' [(0, 0), (1, 1), (2, 2)] (7 :: nat)
     = (Inr (1 :: int, 1 :: int), 7)"
  "parse_response counter_randbelow ''I will play move:1'' [(0, 0), (1, 1), (2, 2)] (7 :: nat)
     = (Inr (1 :: int, 1 :: int), 7)"
  "parse_response counter_randbelow ''I will choose move 5. MOVE: 5'' [(0, 0), (0, 1)] (7 :: nat)
     = (Inr (0 :: int, 1 :: int), 8)"
  "parse_response counter_randbelow ''I am not sure what to do.'' [(0, 0), (0, 1)] (7 :: nat)
     = (Inr (0 :: int, 1 :: int), 8)"
  by code_simp+


section \<open>Seeded random agents\<close>

text \<open>
  What holds of the seeded \<open>RandomAgent\<close>: \<open>make_move\<close> raises exactly on the empty list and
  otherwise returns an element of the list, and an agent that is used right after it was
  built with a seed, with no other draw in between, makes the moves the seed fixes.
\<close>

lemma random_agent_make_move_spec:
  assumes "randbelow_ok rb"
  shows "(legal_moves = [] \<longrightarrow> random_agent_make_move rb legal_moves g = (Inl ValueError, g))
     \<and> (legal_moves \<noteq> [] \<longrightarrow>
          (\<exists>m g'. random_agent_make_move rb legal_moves g = (Inr m, g') \<and> m \<in> set legal_moves))"
  using random_choice_member[OF assms, of legal_moves g]
  by (auto simp: random_agent_make_move_def)

lemma random_agent_fresh_deterministic:
  "random_agent_moves rb lms (random_agent_init seed (Some n) g)
     = random_agent_moves rb lms (random_agent_init seed (Some n) g')"
  by (simp add: random_agent_init_def)

text \<open>
  Two agents built with the same seed share the generator of the module: the second
  one's moves are the draws that follow the first one's, whatever the generator is.
\<close>

lemma random_agents_share_generator:
  "random_agent_moves rb lms
      (snd (random_agent_moves rb lms
              (random_agent_init seed (Some n) (random_agent_init seed (Some n) g))))
   = random_agent_moves rb lms (snd (random_agent_moves rb lms (seed n)))"
  by (simp add: random_agent_init_def)

text \<open>
  C7. Two \<open>RandomAgent\<close>s built with the same seed and given the same legal-move lists are
  to make the same moves. With the counter generator, two agents are built with seed 42;
  the first is asked twice for a move from five legal moves, then the second is asked
  twice. The first agent plays (2,2), (3,3), the second plays (4,4), (0,0): it continues the
  stream of the first one instead of repeating it.
\<close>

theorem random_agents_same_seed_differ:
  "(case random_agent_moves counter_randbelow
           [[(0 :: int, 0 :: int), (1, 1), (2, 2), (3, 3), (4, 4)], [(0, 0), (1, 1), (2, 2), (3, 3), (4, 4)]]
           (random_agent_init counter_seed (Some 42) (random_agent_init counter_seed (Some 42) 0)) of
      (first_moves, g1) \<Rightarrow>
        (case random_agent_moves counter_randbelow
                [[(0 :: int, 0 :: int), (1, 1), (2, 2), (3, 3), (4, 4)], [(0, 0), (1, 1), (2, 2), (3, 3), (4, 4)]] g1 of
           (second_moves, g2) \<Rightarrow> (first_moves, second_moves)))
   = ([Inr (2 :: int, 2 :: int), Inr (3, 3)], [Inr (4, 4), Inr (0, 0)])"
  by code_simp

section \<open>The loop of the match runner\<close>

text \<open>
  The rule of the loop: a property of the match record that holds at the start and that
  every turn keeps holds at the end, where the state is terminal or the cap is reached.
\<close>

lemma match_loop_rule:
  fixes G :: "('s, 'm) game" and A :: "('w, 's, 'm) agents"
  assumes run: "match_loop G A cap (M, w) = Some (Inr M', w')"
    and init: "I M"
    and step: "\<And>M w M1 w1. I M \<Longrightarrow> \<not> is_terminal G (state M) \<Longrightarrow> move_count M < cap
                  \<Longrightarrow> play_turn G A M w = (Inr M1, w1) \<Longrightarrow> I M1"
  shows "I M' \<and> (is_terminal G (state M') \<or> cap \<le> move_count M')"
proof -
  let ?P = "\<lambda>(G0 :: ('s, 'm) game) (A0 :: ('w, 's, 'm) agents) cap0 (Mw :: ('s, 'm) match \<times> 'w)
               (y :: (error + ('s, 'm) match) \<times> 'w).
        G0 = G \<longrightarrow> A0 = A \<longrightarrow> cap0 = cap \<longrightarrow> I (fst Mw) \<longrightarrow>
          (\<forall>M2 w2. y = (Inr M2, w2) \<longrightarrow>
             I M2 \<and> (is_terminal G (state M2) \<or> cap \<le> move_count M2))"
  have stepP: "?P G1 A1 cap1 Mw1 y1"
    if IH: "\<And>G0 A0 cap0 Mw y. loop G0 A0 cap0 Mw = Some y \<Longrightarrow> ?P G0 A0 cap0 Mw y"
      and body: "(if \<not> is_terminal G1 (state (fst Mw1)) \<and> move_count (fst Mw1) < cap1
          then case play_turn G1 A1 (fst Mw1) (snd Mw1) of
                 (Inl e, w') \<Rightarrow> Some (Inl e, w')
               | (Inr M', w') \<Rightarrow> loop G1 A1 cap1 (M', w')
          else Some (Inr (fst Mw1), snd Mw1)) = Some y1"
    for loop G1 A1 cap1 Mw1 y1
  proof (intro impI allI)
    fix M2 w2
    assume eqs: "G1 = G" "A1 = A" "cap1 = cap" and I1: "I (fst Mw1)"
      and y1: "y1 = (Inr M2, w2)"
    show "I M2 \<and> (is_terminal G (state M2) \<or> cap \<le> move_count M2)"
    proof (cases "\<not> is_terminal G (state (fst Mw1)) \<and> move_count (fst Mw1) < cap")
      case False
      with body eqs y1 have "M2 = fst Mw1" by simp
      with False I1 show ?thesis by auto
    next
      case True
      obtain r w3 where pt: "play_turn G A (fst Mw1) (snd Mw1) = (r, w3)"
        by (cases "play_turn G A (fst Mw1) (snd Mw1)")
      show ?thesis
      proof (cases r)
        case (Inl e)
        with body eqs True pt y1 show ?thesis by simp
      next
        case (Inr M3)
        with body eqs True pt have call: "loop G A cap (M3, w3) = Some y1" by simp
        have "I M3" using step[OF I1 _ _ pt[unfolded Inr]] True by simp
        with IH[OF call] y1 show ?thesis by simp
      qed
    qed
  qed
  have "?P G A cap (M, w) (Inr M', w')"
    by (rule match_loop.raw_induct[where P = ?P, OF stepP run])
  with init show ?thesis by simp
qed

section \<open>Turns of a match\<close>

lemma rejected_turn_frame:
  assumes "rejected_turn G A M legal_moves mv w = (Inr M', w')"
  shows "moves_history M' = moves_history M \<and> move_times M' = move_times M
     \<and> feedback M' = feedback M @ [(current_player M, mv, False)]
     \<and> move_count M' = move_count M + 1
     \<and> current_player M' = next_player G (current_player M)
     \<and> (\<exists>k. randbelow A w (length legal_moves) = (k, w') \<and> legal_moves \<noteq> []
            \<and> make_move G (state M) (legal_moves ! k) (current_player M) = Inr (state M'))
     \<and> states_history M' = states_history M @ [state M']"
proof -
  obtain k w1 where k: "randbelow A w (length legal_moves) = (k, w1)"
    by (cases "randbelow A w (length legal_moves)")
  from assms have ne: "legal_moves \<noteq> []"
    by (auto simp: rejected_turn_def random_choice_def Let_def split: if_splits)
  with k have rc: "random_choice (randbelow A) legal_moves w = (Inr (legal_moves ! k), w1)"
    by (simp add: random_choice_def)
  from assms rc obtain new_state where
    ns: "make_move G (state M) (legal_moves ! k) (current_player M) = Inr new_state"
    by (cases "make_move G (state M) (legal_moves ! k) (current_player M)")
       (auto simp: rejected_turn_def Let_def)
  from assms rc ns have w: "w' = w1" and M': "M' = M\<lparr>feedback := feedback M @ [(current_player M, mv, False)],
      state := new_state, states_history := states_history M @ [new_state],
      current_player := next_player G (current_player M), move_count := move_count M + 1\<rparr>"
    by (auto simp: rejected_turn_def Let_def)
  show ?thesis using k ns ne unfolding M' w by simp
qed

lemma accepted_turn_frame:
  assumes "accepted_turn G A M mv elapsed = Inr M'"
  shows "moves_history M' = moves_history M @
            [\<lparr>player = current_player M, info_agent_name = agent_name A (current_player M),
              move = move_to_string G mv, time_taken = elapsed\<rparr>]
     \<and> move_times M' = move_times M @ [elapsed]
     \<and> feedback M' = feedback M @ [(current_player M, Some mv, True)]
     \<and> move_count M' = move_count M + 1
     \<and> current_player M' = next_player G (current_player M)
     \<and> make_move G (state M) mv (current_player M) = Inr (state M')
     \<and> states_history M' = states_history M @ [state M']"
proof -
  from assms obtain new_state where
    ns: "make_move G (state M) mv (current_player M) = Inr new_state"
    by (cases "make_move G (state M) mv (current_player M)") (auto simp: accepted_turn_def Let_def)
  with assms have M': "M' = M\<lparr>feedback := feedback M @ [(current_player M, Some mv, True)],
      moves_history := moves_history M @
            [\<lparr>player = current_player M, info_agent_name = agent_name A (current_player M),
              move = move_to_string G mv, time_taken = elapsed\<rparr>],
      move_times := move_times M @ [elapsed],
      state := new_state, states_history := states_history M @ [new_state],
      current_player := next_player G (current_player M), move_count := move_count M + 1\<rparr>"
    by (auto simp: accepted_turn_def Let_def)
  show ?thesis using ns unfolding M' by simp
qed

text \<open>The three ways through a turn.\<close>

lemma play_turn_cases:
  assumes "play_turn G A M w = (Inr M', w')"
  shows "(get_legal_moves G (state M) (current_player M) = []
            \<and> M' = M\<lparr>current_player := next_player G (current_player M)\<rparr> \<and> w' = w)
     \<or> (\<exists>mv elapsed. get_legal_moves G (state M) (current_player M) \<noteq> []
            \<and> agent_make_move A (current_player M) (state M)
                 (get_legal_moves G (state M) (current_player M)) w = (Returns mv, elapsed, w')
            \<and> mv \<in> set (get_legal_moves G (state M) (current_player M))
            \<and> accepted_turn G A M mv elapsed = Inr M')
     \<or> (\<exists>d elapsed w1. get_legal_moves G (state M) (current_player M) \<noteq> []
            \<and> agent_make_move A (current_player M) (state M)
                 (get_legal_moves G (state M) (current_player M)) w = (d, elapsed, w1)
            \<and> (\<forall>mv. d = Returns mv \<longrightarrow> mv \<notin> set (get_legal_moves G (state M) (current_player M)))
            \<and> rejected_turn G A M (get_legal_moves G (state M) (current_player M))
                 (case d of Returns mv \<Rightarrow> Some mv | Raises \<Rightarrow> None) w1 = (Inr M', w'))"
proof (cases "get_legal_moves G (state M) (current_player M) = []")
  case True
  with assms show ?thesis by (auto simp: play_turn_def Let_def)
next
  case False
  obtain d elapsed w1 where d: "agent_make_move A (current_player M) (state M)
      (get_legal_moves G (state M) (current_player M)) w = (d, elapsed, w1)"
    by (cases "agent_make_move A (current_player M) (state M)
      (get_legal_moves G (state M) (current_player M)) w")
  show ?thesis
  proof (cases d)
    case Raises
    with assms False d show ?thesis by (auto simp: play_turn_def Let_def)
  next
    case (Returns mv)
    show ?thesis
    proof (cases "mv \<in> set (get_legal_moves G (state M) (current_player M))")
      case True
      with assms False d Returns show ?thesis by (auto simp: play_turn_def Let_def)
    next
      case nl: False
      with assms False d Returns show ?thesis by (auto simp: play_turn_def Let_def)
    qed
  qed
qed

section \<open>What a finished match records\<close>

lemma accepted_count_snoc:
  "accepted_count (fb @ [(p, mv, True)]) = Suc (accepted_count fb)"
  "accepted_count (fb @ [(p, mv, False)]) = accepted_count fb"
  by (simp_all add: accepted_count_def)

lemma match_inv_initial: "match_inv (initial_match G)"
  by (simp add: match_inv_def initial_match_def accepted_count_def)

lemma play_turn_match_inv:
  assumes "match_inv M" and "play_turn G A M w = (Inr M', w')"
  shows "match_inv M'"
proof -
  from play_turn_cases[OF assms(2)] consider
    (pass) "M' = M\<lparr>current_player := next_player G (current_player M)\<rparr>"
  | (acc) mv elapsed where "accepted_turn G A M mv elapsed = Inr M'"
  | (rej) lm mv w1 where "rejected_turn G A M lm mv w1 = (Inr M', w')"
    by blast
  then show ?thesis
  proof cases
    case pass
    with assms(1) show ?thesis by (simp add: match_inv_def)
  next
    case acc
    from accepted_turn_frame[OF acc] assms(1) show ?thesis
      by (simp add: match_inv_def accepted_count_snoc)
  next
    case rej
    from rejected_turn_frame[OF rej] assms(1) show ?thesis
      by (simp add: match_inv_def accepted_count_snoc)
  qed
qed

lemma run_match_Some:
  assumes "run_match G A cap w = Some (Inr (R, M), w')"
  shows "match_loop G A cap (initial_match G, w) = Some (Inr M, w') \<and> R = match_result G M"
proof (cases "match_loop G A cap (initial_match G, w)")
  case None
  with assms show ?thesis by (simp add: run_match_def)
next
  case (Some x)
  obtain r w1 where x: "x = (r, w1)" by (cases x)
  show ?thesis
  proof (cases r)
    case (Inl e)
    with assms Some x show ?thesis by (simp add: run_match_def)
  next
    case (Inr M1)
    with assms Some x show ?thesis by (auto simp: run_match_def)
  qed
qed

lemma run_match_inv:
  assumes "run_match G A cap w = Some (Inr (R, M), w')"
  shows "match_inv M"
proof -
  from run_match_Some[OF assms] have run: "match_loop G A cap (initial_match G, w) = Some (Inr M, w')"
    by simp
  have "match_inv M \<and> (is_terminal G (state M) \<or> cap \<le> move_count M)"
  proof (rule match_loop_rule[OF run, of match_inv])
    show "match_inv (initial_match G)" by (rule match_inv_initial)
  next
    fix M0 w0 M1 w1
    assume "match_inv M0" "play_turn G A M0 w0 = (Inr M1, w1)"
    then show "match_inv M1" by (rule play_turn_match_inv)
  qed
  then show ?thesis by simp
qed

text \<open>
  C10. A rejected turn applies the move chosen by \<open>random.choice\<close> and appends the new
  state to \<open>states_history\<close>, and it leaves \<open>moves_history\<close> and \<open>move_times\<close> as they were;
  an accepted turn appends one entry to each. So in the result of a finished match
  \<open>moves\<close> is the number of accepted moves, one for each \<open>move_feedback\<close> call with the
  flag set, while there is one snapshot for every consumed turn; the average and the
  maximum time are taken over the accepted moves' samples only.
\<close>

theorem fallback_moves_not_recorded:
  "(rejected_turn G A M legal_moves mv w = (Inr M', w') \<longrightarrow>
       moves_history M' = moves_history M \<and> move_times M' = move_times M
     \<and> states_history M' = states_history M @ [state M']
     \<and> move_count M' = move_count M + 1
     \<and> (\<exists>k. randbelow A w (length legal_moves) = (k, w')
           \<and> make_move G (state M) (legal_moves ! k) (current_player M) = Inr (state M')))
   \<and> (accepted_turn G A M ma elapsed = Inr Ma \<longrightarrow>
       length (moves_history Ma) = Suc (length (moves_history M))
     \<and> move_times Ma = move_times M @ [elapsed]
     \<and> states_history Ma = states_history M @ [state Ma]
     \<and> move_count Ma = move_count M + 1)
   \<and> (run_match G A cap ws = Some (Inr (R, Me), we) \<longrightarrow>
       moves R = length (moves_history Me)
     \<and> moves R = accepted_count (feedback Me)
     \<and> length (feedback Me) = move_count Me
     \<and> length (states_history Me) = Suc (move_count Me)
     \<and> move_times Me = map time_taken (moves_history Me)
     \<and> avg_move_time R = (if moves R = 0 then 0
                           else sum_list (map time_taken (moves_history Me)) / real (moves R))
     \<and> max_move_time R = (if moves R = 0 then 0
                           else max_list (map time_taken (moves_history Me))))"
proof (intro conjI impI)
  assume a: "rejected_turn G A M legal_moves mv w = (Inr M', w')"
  from rejected_turn_frame[OF a]
  show "moves_history M' = moves_history M" "move_times M' = move_times M"
    "states_history M' = states_history M @ [state M']" "move_count M' = move_count M + 1"
    "\<exists>k. randbelow A w (length legal_moves) = (k, w')
           \<and> make_move G (state M) (legal_moves ! k) (current_player M) = Inr (state M')"
    by blast+
next
  assume a: "accepted_turn G A M ma elapsed = Inr Ma"
  from accepted_turn_frame[OF a]
  show "length (moves_history Ma) = Suc (length (moves_history M))"
    "move_times Ma = move_times M @ [elapsed]"
    "states_history Ma = states_history M @ [state Ma]" "move_count Ma = move_count M + 1"
    by simp_all
next
  assume a: "run_match G A cap ws = Some (Inr (R, Me), we)"
  from run_match_Some[OF a] have R: "R = match_result G Me" by simp
  from run_match_inv[OF a] have inv: "match_inv Me" .
  show "moves R = length (moves_history Me)" by (simp add: R match_result_def)
  show "moves R = accepted_count (feedback Me)"
    using inv by (simp add: R match_result_def match_inv_def)
  show "length (feedback Me) = move_count Me" using inv by (simp add: match_inv_def)
  show "length (states_history Me) = Suc (move_count Me)" using inv by (simp add: match_inv_def)
  show mt: "move_times Me = map time_taken (moves_history Me)"
    using inv by (simp add: match_inv_def)
  show "avg_move_time R = (if moves R = 0 then 0
                           else sum_list (map time_taken (moves_history Me)) / real (moves R))"
    by (simp add: R match_result_def mt)
  show "max_move_time R = (if moves R = 0 then 0
                           else max_list (map time_taken (moves_history Me)))"
    by (simp add: R match_result_def mt)
qed


lemma example_run:
  "(case run_match (gomoku_game \<lparr>board_size = 3, gomoku_win_length = 3\<rparr>)
              (example_agents (9, 9) (1, 1)) 3 (0 :: nat) of
      Some (Inr (R, M), w) \<Rightarrow>
        moves R = 1 \<and> move_count M = 3 \<and> length (states_history M) = 4
        \<and> \<not> gomoku_is_terminal \<lparr>board_size = 3, gomoku_win_length = 3\<rparr> (state M)
        \<and> list_all (\<lambda>s. \<not> gomoku_is_terminal \<lparr>board_size = 3, gomoku_win_length = 3\<rparr> s)
             (states_history M)
        \<and> feedback M = [(0, Some (9, 9), False), (1, Some (1, 1), True), (0, Some (9, 9), False)]
        \<and> avg_move_time R = 1
    | _ \<Rightarrow> False)"
  by code_simp

lemma example_run_obtain:
  "\<exists>R M w. run_match (gomoku_game \<lparr>board_size = 3, gomoku_win_length = 3\<rparr>)
              (example_agents (9, 9) (1, 1)) 3 (0 :: nat) = Some (Inr (R, M), w)
        \<and> moves R = 1 \<and> move_count M = 3 \<and> length (states_history M) = 4
        \<and> \<not> gomoku_is_terminal \<lparr>board_size = 3, gomoku_win_length = 3\<rparr> (state M)
        \<and> list_all (\<lambda>s. \<not> gomoku_is_terminal \<lparr>board_size = 3, gomoku_win_length = 3\<rparr> s)
             (states_history M)
        \<and> feedback M = [(0, Some (9, 9), False), (1, Some (1, 1), True), (0, Some (9, 9), False)]
        \<and> avg_move_time R = 1"
proof (cases "run_match (gomoku_game \<lparr>board_size = 3, gomoku_win_length = 3\<rparr>)
              (example_agents (9, 9) (1, 1)) 3 (0 :: nat)")
  case None
  with example_run show ?thesis by simp
next
  case (Some x)
  obtain r w where x: "x = (r, w)" by (cases x)
  show ?thesis
  proof (cases r)
    case (Inl e)
    with example_run Some x show ?thesis by simp
  next
    case (Inr RM)
    obtain R M where "RM = (R, M)" by (cases RM)
    with example_run Some x Inr show ?thesis by simp
  qed
qed

lemma example_rejected_turn:
  "\<exists>M' w'. rejected_turn (gomoku_game \<lparr>board_size = 3, gomoku_win_length = 3\<rparr>)
        (example_agents (9, 9) (1, 1))
        (initial_match (gomoku_game \<lparr>board_size = 3, gomoku_win_length = 3\<rparr>))
        [(0, 0), (0, 1)] (Some (9, 9)) (0 :: nat) = (Inr M', w')"
proof -
  have "(case rejected_turn (gomoku_game \<lparr>board_size = 3, gomoku_win_length = 3\<rparr>)
        (example_agents (9, 9) (1, 1))
        (initial_match (gomoku_game \<lparr>board_size = 3, gomoku_win_length = 3\<rparr>))
        [(0, 0), (0, 1)] (Some (9, 9)) (0 :: nat) of (Inr M', w') \<Rightarrow> True | _ \<Rightarrow> False)"
    by code_simp
  then show ?thesis by (auto split: prod.splits sum.splits)
qed

lemma example_accepted_turn:
  "\<exists>M'. accepted_turn (gomoku_game \<lparr>board_size = 3, gomoku_win_length = 3\<rparr>)
        (example_agents (9, 9) (1, 1) :: (nat, board, int \<times> int) agents)
        (initial_match (gomoku_game \<lparr>board_size = 3, gomoku_win_length = 3\<rparr>))
        (1, 1) 1 = Inr M'"
proof -
  have "(case accepted_turn (gomoku_game \<lparr>board_size = 3, gomoku_win_length = 3\<rparr>)
        (example_agents (9, 9) (1, 1) :: (nat, board, int \<times> int) agents)
        (initial_match (gomoku_game \<lparr>board_size = 3, gomoku_win_length = 3\<rparr>))
        (1, 1) 1 of Inr M' \<Rightarrow> True | _ \<Rightarrow> False)"
    by code_simp
  then show ?thesis by (auto split: sum.splits)
qed

theorem fallback_moves_not_recorded_witness:
  "(\<exists>R M w. run_match (gomoku_game \<lparr>board_size = 3, gomoku_win_length = 3\<rparr>)
              (example_agents (9, 9) (1, 1)) 3 (0 :: nat) = Some (Inr (R, M), w)
        \<and> moves R = 1 \<and> accepted_count (feedback M) = 1 \<and> move_count M = 3
        \<and> length (states_history M) = 4 \<and> length (move_times M) = 1)
   \<and> (\<exists>M' w'. rejected_turn (gomoku_game \<lparr>board_size = 3, gomoku_win_length = 3\<rparr>)
        (example_agents (9, 9) (1, 1))
        (initial_match (gomoku_game \<lparr>board_size = 3, gomoku_win_length = 3\<rparr>))
        [(0, 0), (0, 1)] (Some (9, 9)) (0 :: nat) = (Inr M', w')
        \<and> moves_history M' = [] \<and> move_times M' = [] \<and> length (states_history M') = 2)
   \<and> (\<exists>M'. accepted_turn (gomoku_game \<lparr>board_size = 3, gomoku_win_length = 3\<rparr>)
        (example_agents (9, 9) (1, 1) :: (nat, board, int \<times> int) agents)
        (initial_match (gomoku_game \<lparr>board_size = 3, gomoku_win_length = 3\<rparr>))
        (1, 1) 1 = Inr M'
        \<and> length (moves_history M') = 1 \<and> move_times M' = [1])"
proof -
  let ?G = "gomoku_game \<lparr>board_size = 3, gomoku_win_length = 3\<rparr>"
  let ?A = "example_agents (9, 9) (1, 1) :: (nat, board, int \<times> int) agents"
  from example_run_obtain obtain R M w where
    run: "run_match ?G ?A 3 0 = Some (Inr (R, M), w)" and ev: "moves R = 1" "move_count M = 3"
    by blast
  from example_rejected_turn obtain Mr wr where
    rej: "rejected_turn ?G ?A (initial_match ?G) [(0, 0), (0, 1)] (Some (9, 9)) 0 = (Inr Mr, wr)"
    by blast
  from example_accepted_turn obtain Mc where
    acc: "accepted_turn ?G ?A (initial_match ?G) (1, 1) 1 = Inr Mc" by blast
  note th = fallback_moves_not_recorded[where G = ?G and A = ?A and M = "initial_match ?G"
      and legal_moves = "[(0, 0), (0, 1)]" and mv = "Some (9, 9)" and w = 0 and M' = Mr
      and w' = wr and ma = "(1, 1)" and elapsed = 1 and Ma = Mc and cap = 3 and ws = 0
      and R = R and Me = M and we = w]
  from th run ev have a: "accepted_count (feedback M) = 1 \<and> length (states_history M) = 4
      \<and> length (move_times M) = 1"
    by simp
  from th rej have b: "moves_history Mr = [] \<and> move_times Mr = [] \<and> length (states_history Mr) = 2"
    by (simp add: initial_match_def)
  from th acc have c: "length (moves_history Mc) = 1 \<and> move_times Mc = [1]"
    by (simp add: initial_match_def)
  from run ev a rej b acc c show ?thesis by blast
qed

section \<open>Matches that finish\<close>

lemma game_ok_legal:
  "game_ok G good \<Longrightarrow> good s \<Longrightarrow> \<not> is_terminal G s \<Longrightarrow> get_legal_moves G s p \<noteq> []"
  by (simp add: game_ok_def)

lemma game_ok_move:
  "game_ok G good \<Longrightarrow> good s \<Longrightarrow> mv \<in> set (get_legal_moves G s p)
   \<Longrightarrow> \<exists>s'. make_move G s mv p = Inr s' \<and> good s'"
  unfolding game_ok_def by blast

lemma random_choice_legal:
  assumes "randbelow_ok rb" "seq \<noteq> []" "rb g (length seq) = (k, g')"
  shows "seq ! k \<in> set seq"
proof -
  from assms(1,2) have "fst (rb g (length seq)) < length seq" by (simp add: randbelow_ok_def)
  with assms(3) show ?thesis by simp
qed

lemma play_turn_progress:
  assumes ok: "game_ok G good" and rb: "randbelow_ok (randbelow A)"
    and good: "good (state M)" and nt: "\<not> is_terminal G (state M)"
  shows "\<exists>M1 w1. play_turn G A M w = (Inr M1, w1)"
proof -
  let ?lm = "get_legal_moves G (state M) (current_player M)"
  have ne: "?lm \<noteq> []" using game_ok_legal[OF ok good nt] .
  obtain d elapsed w1 where d: "agent_make_move A (current_player M) (state M) ?lm w = (d, elapsed, w1)"
    by (cases "agent_make_move A (current_player M) (state M) ?lm w")
  have rej: "\<exists>M1 w2. rejected_turn G A M ?lm mo w1 = (Inr M1, w2)" for mo
  proof -
    obtain k w2 where k: "randbelow A w1 (length ?lm) = (k, w2)"
      by (cases "randbelow A w1 (length ?lm)")
    from random_choice_legal[OF rb ne k] have "?lm ! k \<in> set ?lm" .
    from game_ok_move[OF ok good this] obtain s' where
      "make_move G (state M) (?lm ! k) (current_player M) = Inr s'" by blast
    with k ne show ?thesis by (simp add: rejected_turn_def random_choice_def Let_def)
  qed
  show ?thesis
  proof (cases d)
    case Raises
    with d ne rej[of None] show ?thesis by (simp add: play_turn_def Let_def)
  next
    case (Returns mv)
    show ?thesis
    proof (cases "mv \<in> set ?lm")
      case True
      from game_ok_move[OF ok good True] obtain s' where
        "make_move G (state M) mv (current_player M) = Inr s'" by blast
      with d ne Returns True show ?thesis
        by (simp add: play_turn_def accepted_turn_def Let_def)
    next
      case False
      with d ne Returns rej[of "Some mv"] show ?thesis by (simp add: play_turn_def Let_def)
    qed
  qed
qed

lemma play_turn_step:
  assumes ok: "game_ok G good" and rb: "randbelow_ok (randbelow A)"
    and good: "good (state M)" and nt: "\<not> is_terminal G (state M)"
    and pt: "play_turn G A M w = (Inr M1, w1)"
  shows "good (state M1) \<and> move_count M1 = Suc (move_count M)
     \<and> states_history M1 = states_history M @ [state M1]
     \<and> current_player M1 = next_player G (current_player M)
     \<and> (\<exists>mo flag. feedback M1 = feedback M @ [(current_player M, mo, flag)]
           \<and> (always_illegal G A (current_player M) \<longrightarrow> \<not> flag))"
proof -
  let ?lm = "get_legal_moves G (state M) (current_player M)"
  have ne: "?lm \<noteq> []" using game_ok_legal[OF ok good nt] .
  from play_turn_cases[OF pt] ne consider
    (acc) mv elapsed where
      "agent_make_move A (current_player M) (state M) ?lm w = (Returns mv, elapsed, w1)"
      "mv \<in> set ?lm" "accepted_turn G A M mv elapsed = Inr M1"
  | (rej) mo w2 where "rejected_turn G A M ?lm mo w2 = (Inr M1, w1)"
    by blast
  then show ?thesis
  proof cases
    case acc
    note fr = accepted_turn_frame[OF acc(3)]
    from game_ok_move[OF ok good acc(2)] fr have g: "good (state M1)" by auto
    have "\<not> always_illegal G A (current_player M)"
    proof
      assume "always_illegal G A (current_player M)"
      then have "fst (agent_make_move A (current_player M) (state M) ?lm w) = Returns mv
          \<longrightarrow> mv \<notin> set ?lm"
        unfolding always_illegal_def by blast
      with acc(1,2) show False by simp
    qed
    with fr g show ?thesis by auto
  next
    case rej
    note fr = rejected_turn_frame[OF rej]
    then obtain k where k: "randbelow A w2 (length ?lm) = (k, w1)"
      "make_move G (state M) (?lm ! k) (current_player M) = Inr (state M1)" by blast
    from random_choice_legal[OF rb ne k(1)] have "?lm ! k \<in> set ?lm" .
    from game_ok_move[OF ok good this] k(2) have g: "good (state M1)" by auto
    with fr show ?thesis by auto
  qed
qed

lemma match_loop_terminates:
  assumes ok: "game_ok G good" and rb: "randbelow_ok (randbelow A)"
  shows "good (state M) \<Longrightarrow> \<exists>M' w'. match_loop G A cap (M, w) = Some (Inr M', w')"
proof (induction "cap - move_count M" arbitrary: M w rule: less_induct)
  case less
  show ?case
  proof (cases "\<not> is_terminal G (state M) \<and> move_count M < cap")
    case False
    then show ?thesis by (subst match_loop.simps) auto
  next
    case True
    then have nt: "\<not> is_terminal G (state M)" and lt: "move_count M < cap" by simp_all
    from play_turn_progress[OF ok rb less.prems nt] obtain M1 w1 where
      pt: "play_turn G A M w = (Inr M1, w1)" by blast
    from play_turn_step[OF ok rb less.prems nt pt] have
      g1: "good (state M1)" and mc: "move_count M1 = Suc (move_count M)" by simp_all
    have "cap - move_count M1 < cap - move_count M" using mc lt by simp
    from less.hyps[OF this g1] obtain M' w' where
      "match_loop G A cap (M1, w1) = Some (Inr M', w')" by blast
    with True pt show ?thesis by (subst match_loop.simps) simp
  qed
qed

section \<open>The two games under the runner\<close>

lemma gomoku_game_ok: "game_ok (gomoku_game g) (wf_board (board_size g) (board_size g))"
  unfolding game_ok_def
proof (intro conjI allI impI)
  show "wf_board (board_size g) (board_size g) (reset (gomoku_game g))"
    by (simp add: gomoku_game_def gomoku_reset_def wf_board_zeros)
next
  fix s p
  assume "wf_board (board_size g) (board_size g) s \<and> \<not> is_terminal (gomoku_game g) s"
  then have "gomoku_get_legal_moves g s 0 \<noteq> []"
    by (auto simp: gomoku_game_def gomoku_is_terminal_def split: if_splits)
  moreover have "gomoku_get_legal_moves g s p = gomoku_get_legal_moves g s 0"
    by (simp add: gomoku_get_legal_moves_def)
  ultimately show "get_legal_moves (gomoku_game g) s p \<noteq> []" by (simp add: gomoku_game_def)
next
  fix s p mv
  assume a: "wf_board (board_size g) (board_size g) s \<and> mv \<in> set (get_legal_moves (gomoku_game g) s p)"
  then have "mv \<in> set (gomoku_get_legal_moves g s p)" by (simp add: gomoku_game_def)
  from gomoku_make_move_legal[OF this, of p] a
  show "\<exists>s'. make_move (gomoku_game g) s mv p = Inr s' \<and> wf_board (board_size g) (board_size g) s'"
    by (simp add: gomoku_game_def wf_board_set_cell)
qed

lemma connect4_game_ok:
  assumes "0 < rows c"
  shows "game_ok (connect4_game c) (wf_board (rows c) (cols c))"
  unfolding game_ok_def
proof (intro conjI allI impI)
  show "wf_board (rows c) (cols c) (reset (connect4_game c))"
    by (simp add: connect4_game_def connect4_reset_def wf_board_zeros)
next
  fix s p
  assume "wf_board (rows c) (cols c) s \<and> \<not> is_terminal (connect4_game c) s"
  then have "connect4_get_legal_moves c s 0 \<noteq> []"
    by (auto simp: connect4_game_def connect4_is_terminal_def split: if_splits)
  moreover have "connect4_get_legal_moves c s p = connect4_get_legal_moves c s 0"
    by (simp add: connect4_get_legal_moves_def)
  ultimately show "get_legal_moves (connect4_game c) s p \<noteq> []" by (simp add: connect4_game_def)
next
  fix s p mv
  assume a: "wf_board (rows c) (cols c) s \<and> mv \<in> set (get_legal_moves (connect4_game c) s p)"
  then have "mv \<in> set (connect4_get_legal_moves c s p)" by (simp add: connect4_game_def)
  from connect4_make_move_legal[OF assms this, of p] a
  show "\<exists>s'. make_move (connect4_game c) s mv p = Inr s' \<and> wf_board (rows c) (cols c) s'"
    by (auto simp: connect4_game_def wf_board_set_cell)
qed

lemma list_all_butlast_last:
  "xs \<noteq> [] \<Longrightarrow> list_all P (butlast xs) \<Longrightarrow> P (last xs) \<Longrightarrow> list_all P xs"
  by (cases xs rule: rev_cases) simp_all

lemma accepted_count_less:
  assumes "(p, mo, False) \<in> set fb"
  shows "accepted_count fb < length fb"
  unfolding accepted_count_def using assms by (intro length_filter_less[of "(p, mo, False)"]) simp_all

lemma moves_until_terminal_min:
  assumes "hist \<noteq> []" "length hist = Suc n" "n \<le> cap"
    and "list_all (\<lambda>s. \<not> is_terminal G s) (butlast hist)"
    and "is_terminal G (last hist) \<or> cap \<le> n"
  shows "n = min cap (moves_until_terminal G hist)"
proof (cases "is_terminal G (last hist)")
  case True
  have h: "hist = butlast hist @ [last hist]" using assms(1) by simp
  have "takeWhile (\<lambda>s. \<not> is_terminal G s) (butlast hist @ [last hist]) = butlast hist"
    using assms(4) True by (simp add: takeWhile_append2 list_all_iff)
  with h have "moves_until_terminal G hist = length (butlast hist)"
    by (simp add: moves_until_terminal_def)
  with assms(2,3) show ?thesis by simp
next
  case False
  with assms(5) have c: "cap \<le> n" by simp
  from list_all_butlast_last[OF assms(1,4) False]
  have tw: "takeWhile (\<lambda>s. \<not> is_terminal G s) hist = hist" by (simp add: list_all_iff)
  have "moves_until_terminal G hist = Suc n"
    unfolding moves_until_terminal_def tw by (rule assms(2))
  with c assms(3) show ?thesis by simp
qed

section \<open>Recovery from an agent that never proposes a legal move\<close>

lemma rejected_for_snoc:
  "rejected_for i (fb @ [(p, mo, flag)]) \<longleftrightarrow> rejected_for i fb \<and> (p = i \<longrightarrow> \<not> flag)"
  by (simp add: rejected_for_def)

text \<open>
  What the loop keeps while it plays a game that satisfies \<open>game_ok\<close> against an agent in
  seat \<open>i\<close> that never proposes a legal move.
\<close>

lemma recovery_invariant:
  fixes G :: "('s, 'm) game" and A :: "('w, 's, 'm) agents"
  assumes ok: "game_ok G good" and rb: "randbelow_ok (randbelow A)"
    and bad: "always_illegal G A i"
    and run: "match_loop G A cap (initial_match G, w) = Some (Inr M, w')"
  shows "match_inv M \<and> move_count M \<le> cap
     \<and> list_all (\<lambda>s. \<not> is_terminal G s) (butlast (states_history M))
     \<and> rejected_for i (feedback M)
     \<and> (move_count M = 0 \<longrightarrow> state M = reset G)
     \<and> (i = 0 \<and> 0 < move_count M \<longrightarrow> (\<exists>mo. (0, mo, False) \<in> set (feedback M)))
     \<and> (is_terminal G (state M) \<or> cap \<le> move_count M)"
proof -
  let ?I = "\<lambda>M :: ('s, 'm) match. good (state M) \<and> match_inv M \<and> move_count M \<le> cap
     \<and> list_all (\<lambda>s. \<not> is_terminal G s) (butlast (states_history M))
     \<and> rejected_for i (feedback M)
     \<and> (move_count M = 0 \<longrightarrow> state M = reset G \<and> current_player M = 0)
     \<and> (i = 0 \<and> 0 < move_count M \<longrightarrow> (\<exists>mo. (0, mo, False) \<in> set (feedback M)))"
  have init: "?I (initial_match G)"
    using ok by (simp add: match_inv_initial game_ok_def)
      (simp add: initial_match_def rejected_for_def)
  have step: "?I M1" if I0: "?I M0" and nt: "\<not> is_terminal G (state M0)"
    and lt: "move_count M0 < cap" and pt: "play_turn G A M0 w0 = (Inr M1, w1)" for M0 w0 M1 w1
  proof -
    from I0 have g0: "good (state M0)" and mi: "match_inv M0" by simp_all
    from play_turn_step[OF ok rb g0 nt pt] obtain mo flag where
      st: "good (state M1)" "move_count M1 = Suc (move_count M0)"
        "states_history M1 = states_history M0 @ [state M1]"
        "feedback M1 = feedback M0 @ [(current_player M0, mo, flag)]"
        "always_illegal G A (current_player M0) \<longrightarrow> \<not> flag"
      by blast
    have mi1: "match_inv M1" using mi pt by (rule play_turn_match_inv)
    have ne: "states_history M0 \<noteq> []" using mi by (auto simp: match_inv_def)
    have lastM0: "last (states_history M0) = state M0" using mi by (simp add: match_inv_def)
    have hist: "list_all (\<lambda>s. \<not> is_terminal G s) (states_history M0)"
      using I0 nt lastM0 by (intro list_all_butlast_last[OF ne]) simp_all
    have rf: "rejected_for i (feedback M1)"
      unfolding st(4) rejected_for_snoc using I0 st(5) bad by auto
    have once: "\<exists>mo. (0, mo, False) \<in> set (feedback M1)" if i0: "i = 0"
    proof (cases "move_count M0 = 0")
      case True
      with I0 have "current_player M0 = 0" by simp
      with st(5) bad i0 have "\<not> flag" by simp
      with st(4) \<open>current_player M0 = 0\<close> show ?thesis by auto
    next
      case False
      with I0 i0 obtain mo' where "(0, mo', False) \<in> set (feedback M0)" by auto
      with st(4) show ?thesis by auto
    qed
    show ?thesis
      using st(1,2) mi1 lt hist rf once by (simp add: st(3))
  qed
  have "?I M \<and> (is_terminal G (state M) \<or> cap \<le> move_count M)"
  proof (rule match_loop_rule[OF run, of ?I])
    show "?I (initial_match G)" by (rule init)
  next
    fix M0 w0 M1 w1
    assume "?I M0" "\<not> is_terminal G (state M0)" "move_count M0 < cap"
      "play_turn G A M0 w0 = (Inr M1, w1)"
    then show "?I M1" by (rule step)
  qed
  then show ?thesis by simp
qed

section \<open>Orchestrator recovery\<close>

text \<open>
  C2, amended. Let the game satisfy \<open>game_ok\<close> (Gomoku and Connect4 do) and let the agent in
  seat \<open>i\<close> never propose a legal move; the game has at least one player, as the turn
  order takes the seat modulo the number of players. Then the match finishes without an
  error. It consumes min(cap, moves until the first terminal state) turns, each with one
  feedback call and one new state snapshot. Every feedback call to seat \<open>i\<close> has the flag unset, and
  on a rejected turn the move applied is one of the legal moves, drawn by \<open>random.choice\<close>.
  The moves applied for a rejected proposal are not accepted moves: \<open>moves\<close> in the result
  counts the feedback calls with the flag set. When the agent sits in seat 0, the cap is
  positive and the first state is not terminal, the agent is rejected at least once and
  \<open>moves\<close> is below the number of consumed turns.
\<close>

theorem orchestrator_recovery:
  fixes G :: "('s, 'm) game" and A :: "('w, 's, 'm) agents"
  assumes "game_ok G good" and "randbelow_ok (randbelow A)" and "0 < num_players G"
    and "always_illegal G A i"
  shows "(\<exists>R M w'. run_match G A cap w = Some (Inr (R, M), w')
        \<and> move_count M = min cap (moves_until_terminal G (states_history M))
        \<and> length (states_history M) = Suc (move_count M)
        \<and> length (feedback M) = move_count M
        \<and> rejected_for i (feedback M)
        \<and> moves R = accepted_count (feedback M)
        \<and> moves R \<le> move_count M
        \<and> (i = 0 \<and> 0 < cap \<and> \<not> is_terminal G (reset G) \<longrightarrow>
              (\<exists>mo. (0, mo, False) \<in> set (feedback M)) \<and> moves R < move_count M))
     \<and> (rejected_turn G A Ma legal_moves mo wa = (Inr Mb, wb) \<longrightarrow>
          (\<exists>fallback \<in> set legal_moves.
              make_move G (state Ma) fallback (current_player Ma) = Inr (state Mb))
          \<and> move_count Mb = move_count Ma + 1
          \<and> feedback Mb = feedback Ma @ [(current_player Ma, mo, False)])"
proof (intro conjI impI)
  assume rej: "rejected_turn G A Ma legal_moves mo wa = (Inr Mb, wb)"
  note fr = rejected_turn_frame[OF rej]
  then obtain k where k: "randbelow A wa (length legal_moves) = (k, wb)" "legal_moves \<noteq> []"
    "make_move G (state Ma) (legal_moves ! k) (current_player Ma) = Inr (state Mb)" by blast
  from random_choice_legal[OF assms(2) k(2) k(1)] k(3)
  show "\<exists>fallback \<in> set legal_moves.
              make_move G (state Ma) fallback (current_player Ma) = Inr (state Mb)" by blast
  from fr show "move_count Mb = move_count Ma + 1"
    "feedback Mb = feedback Ma @ [(current_player Ma, mo, False)]" by simp_all
next
  have g0: "good (state (initial_match G))"
    using assms(1) by (simp add: game_ok_def initial_match_def)
  from match_loop_terminates[OF assms(1,2) g0, of cap w] obtain M w' where
    run: "match_loop G A cap (initial_match G, w) = Some (Inr M, w')" by blast
  then have rm: "run_match G A cap w = Some (Inr (match_result G M, M), w')"
    by (simp add: run_match_def)
  note inv = recovery_invariant[OF assms(1,2,4) run]
  from inv have mi: "match_inv M" by simp
  then have len: "length (states_history M) = Suc (move_count M)"
    and fb: "length (feedback M) = move_count M"
    and lastM: "last (states_history M) = state M"
    and cnt: "length (moves_history M) = accepted_count (feedback M)"
    by (simp_all add: match_inv_def)
  from len have ne: "states_history M \<noteq> []" by auto
  have mut: "move_count M = min cap (moves_until_terminal G (states_history M))"
    using inv lastM by (intro moves_until_terminal_min[OF ne len]) simp_all
  have le: "accepted_count (feedback M) \<le> move_count M"
    unfolding fb[symmetric] accepted_count_def by (rule length_filter_le)
  have once: "(\<exists>mo. (0, mo, False) \<in> set (feedback M))
       \<and> accepted_count (feedback M) < move_count M"
    if h: "i = 0 \<and> 0 < cap \<and> \<not> is_terminal G (reset G)"
  proof -
    have "0 < move_count M"
    proof (rule ccontr)
      assume "\<not> 0 < move_count M"
      then have z: "move_count M = 0" by simp
      with inv have "state M = reset G" by simp
      with inv z h show False by auto
    qed
    with inv h obtain mo where mo: "(0, mo, False) \<in> set (feedback M)" by auto
    from accepted_count_less[OF mo] fb mo show ?thesis by auto
  qed
  show "\<exists>R M w'. run_match G A cap w = Some (Inr (R, M), w')
        \<and> move_count M = min cap (moves_until_terminal G (states_history M))
        \<and> length (states_history M) = Suc (move_count M)
        \<and> length (feedback M) = move_count M
        \<and> rejected_for i (feedback M)
        \<and> moves R = accepted_count (feedback M)
        \<and> moves R \<le> move_count M
        \<and> (i = 0 \<and> 0 < cap \<and> \<not> is_terminal G (reset G) \<longrightarrow>
              (\<exists>mo. (0, mo, False) \<in> set (feedback M)) \<and> moves R < move_count M)"
  proof (intro exI[where x="match_result G M"] exI[where x=M] exI[where x=w'] conjI impI)
    show "run_match G A cap w = Some (Inr (match_result G M, M), w')" by (rule rm)
    show "move_count M = min cap (moves_until_terminal G (states_history M))" by (rule mut)
    show "length (states_history M) = Suc (move_count M)" by (rule len)
    show "length (feedback M) = move_count M" by (rule fb)
    show "rejected_for i (feedback M)" using inv by simp
    show "moves (match_result G M) = accepted_count (feedback M)"
      using cnt by (simp add: match_result_def)
    show "moves (match_result G M) \<le> move_count M"
      using cnt le by (simp add: match_result_def)
  next
    assume h: "i = 0 \<and> 0 < cap \<and> \<not> is_terminal G (reset G)"
    from once[OF h] show "\<exists>mo. (0, mo, False) \<in> set (feedback M)" by simp
    from once[OF h] cnt show "moves (match_result G M) < move_count M"
      by (simp add: match_result_def)
  qed
qed


lemma example_agent_always_illegal:
  "always_illegal (gomoku_game \<lparr>board_size = 3, gomoku_win_length = 3\<rparr>)
     (example_agents (9, 9) (1, 1) :: (nat, board, int \<times> int) agents) 0"
  by (simp add: always_illegal_def example_agents_def gomoku_game_def gomoku_legal_iff)

lemma example_start_not_terminal:
  "\<not> is_terminal (gomoku_game \<lparr>board_size = 3, gomoku_win_length = 3\<rparr>)
       (reset (gomoku_game \<lparr>board_size = 3, gomoku_win_length = 3\<rparr>))"
  by code_simp

lemma moves_until_terminal_all:
  "list_all (\<lambda>s. \<not> is_terminal G s) hist \<Longrightarrow> moves_until_terminal G hist = length hist"
proof -
  assume "list_all (\<lambda>s. \<not> is_terminal G s) hist"
  then have "takeWhile (\<lambda>s. \<not> is_terminal G s) hist = hist" by (simp add: list_all_iff)
  then show ?thesis unfolding moves_until_terminal_def by (rule arg_cong)
qed

lemma example_run_turns:
  "\<exists>R M w. run_match (gomoku_game \<lparr>board_size = 3, gomoku_win_length = 3\<rparr>)
              (example_agents (9, 9) (1, 1)) 3 (0 :: nat) = Some (Inr (R, M), w)
        \<and> moves R = 1 \<and> move_count M = 3
        \<and> moves_until_terminal (gomoku_game \<lparr>board_size = 3, gomoku_win_length = 3\<rparr>)
             (states_history M) = 4"
proof -
  from example_run_obtain obtain R M w where
    run: "run_match (gomoku_game \<lparr>board_size = 3, gomoku_win_length = 3\<rparr>)
              (example_agents (9, 9) (1, 1)) 3 (0 :: nat) = Some (Inr (R, M), w)"
    and v: "moves R = 1" "move_count M = 3" "length (states_history M) = 4"
    and nt: "list_all (\<lambda>s. \<not> gomoku_is_terminal \<lparr>board_size = 3, gomoku_win_length = 3\<rparr> s)
             (states_history M)"
    by blast
  from nt have "list_all (\<lambda>s. \<not> is_terminal (gomoku_game \<lparr>board_size = 3, gomoku_win_length = 3\<rparr>) s)
             (states_history M)"
    by (simp add: gomoku_game_def)
  from moves_until_terminal_all[OF this] v(3)
  have "moves_until_terminal (gomoku_game \<lparr>board_size = 3, gomoku_win_length = 3\<rparr>)
             (states_history M) = 4" by simp
  with run v show ?thesis by blast
qed

text \<open>
  C2 as it is stated fails. Gomoku on a 3 x 3 board with win length 3 and a cap of 3 moves;
  the agent in seat 0 proposes (9,9) on every call, the agent in seat 1 proposes (1,1). The
  match finishes after 3 consumed turns with no terminal state among its four snapshots,
  so min(cap, moves until terminal) is 3, and it holds one accepted move.
\<close>

theorem accepted_moves_differ_from_consumed_turns:
  "always_illegal (gomoku_game \<lparr>board_size = 3, gomoku_win_length = 3\<rparr>)
     (example_agents (9, 9) (1, 1) :: (nat, board, int \<times> int) agents) 0
   \<and> (\<exists>R M w. run_match (gomoku_game \<lparr>board_size = 3, gomoku_win_length = 3\<rparr>)
              (example_agents (9, 9) (1, 1)) 3 (0 :: nat) = Some (Inr (R, M), w)
        \<and> moves R = 1
        \<and> min 3 (moves_until_terminal (gomoku_game \<lparr>board_size = 3, gomoku_win_length = 3\<rparr>)
                   (states_history M)) = 3
        \<and> moves R \<noteq> min 3 (moves_until_terminal (gomoku_game \<lparr>board_size = 3, gomoku_win_length = 3\<rparr>)
                             (states_history M)))"
proof -
  from example_run_turns obtain R M w where
    "run_match (gomoku_game \<lparr>board_size = 3, gomoku_win_length = 3\<rparr>)
              (example_agents (9, 9) (1, 1)) 3 (0 :: nat) = Some (Inr (R, M), w)"
    "moves R = 1" "moves_until_terminal (gomoku_game \<lparr>board_size = 3, gomoku_win_length = 3\<rparr>)
             (states_history M) = 4"
    by blast
  then have "run_match (gomoku_game \<lparr>board_size = 3, gomoku_win_length = 3\<rparr>)
              (example_agents (9, 9) (1, 1)) 3 (0 :: nat) = Some (Inr (R, M), w)
        \<and> moves R = 1
        \<and> min 3 (moves_until_terminal (gomoku_game \<lparr>board_size = 3, gomoku_win_length = 3\<rparr>)
                   (states_history M)) = 3
        \<and> moves R \<noteq> min 3 (moves_until_terminal (gomoku_game \<lparr>board_size = 3, gomoku_win_length = 3\<rparr>)
                             (states_history M))"
    by simp
  with example_agent_always_illegal show ?thesis by blast
qed

theorem orchestrator_recovery_witness:
  "game_ok (gomoku_game \<lparr>board_size = 3, gomoku_win_length = 3\<rparr>) (wf_board 3 3)
   \<and> randbelow_ok (randbelow (example_agents (9, 9) (1, 1) :: (nat, board, int \<times> int) agents))
   \<and> 0 < num_players (gomoku_game \<lparr>board_size = 3, gomoku_win_length = 3\<rparr>)
   \<and> always_illegal (gomoku_game \<lparr>board_size = 3, gomoku_win_length = 3\<rparr>)
        (example_agents (9, 9) (1, 1) :: (nat, board, int \<times> int) agents) 0
   \<and> (\<exists>R M w'. run_match (gomoku_game \<lparr>board_size = 3, gomoku_win_length = 3\<rparr>)
              (example_agents (9, 9) (1, 1)) 3 (0 :: nat) = Some (Inr (R, M), w')
        \<and> move_count M = 3
        \<and> move_count M = min 3 (moves_until_terminal
              (gomoku_game \<lparr>board_size = 3, gomoku_win_length = 3\<rparr>) (states_history M))
        \<and> rejected_for 0 (feedback M)
        \<and> moves R = 1 \<and> moves R < move_count M
        \<and> (\<exists>mo. (0, mo, False) \<in> set (feedback M)))
   \<and> (\<exists>Mb wb. rejected_turn (gomoku_game \<lparr>board_size = 3, gomoku_win_length = 3\<rparr>)
        (example_agents (9, 9) (1, 1))
        (initial_match (gomoku_game \<lparr>board_size = 3, gomoku_win_length = 3\<rparr>))
        [(0, 0), (0, 1)] (Some (9, 9)) (0 :: nat) = (Inr Mb, wb)
        \<and> move_count Mb = 1)"
proof -
  let ?G = "gomoku_game \<lparr>board_size = 3, gomoku_win_length = 3\<rparr>"
  let ?A = "example_agents (9, 9) (1, 1) :: (nat, board, int \<times> int) agents"
  have ok: "game_ok ?G (wf_board 3 3)"
    using gomoku_game_ok[of "\<lparr>board_size = 3, gomoku_win_length = 3\<rparr>"] by simp
  have rb: "randbelow_ok (randbelow ?A)"
    by (simp add: example_agents_def counter_randbelow_ok)
  have np: "0 < num_players ?G" by (simp add: gomoku_game_def)
  note bad = example_agent_always_illegal
  from example_rejected_turn obtain Mr wr where
    rej: "rejected_turn ?G ?A (initial_match ?G) [(0, 0), (0, 1)] (Some (9, 9)) 0 = (Inr Mr, wr)"
    by blast
  note th = orchestrator_recovery[OF ok rb np bad, where cap = 3 and w = 0
      and Ma = "initial_match ?G" and legal_moves = "[(0, 0), (0, 1)]" and mo = "Some (9, 9)"
      and wa = 0 and Mb = Mr and wb = wr]
  from th rej have b: "move_count Mr = 1" by (simp add: initial_match_def)
  from th obtain R M w' where
    run: "run_match ?G ?A 3 0 = Some (Inr (R, M), w')"
    and p: "move_count M = min 3 (moves_until_terminal ?G (states_history M))"
      "rejected_for 0 (feedback M)"
      "(0 :: nat) = 0 \<and> (0 :: nat) < 3 \<and> \<not> is_terminal ?G (reset ?G) \<longrightarrow>
              (\<exists>mo. (0, mo, False) \<in> set (feedback M)) \<and> moves R < move_count M"
    by blast
  from p(3) example_start_not_terminal
  have q: "\<exists>mo. (0, mo, False) \<in> set (feedback M)" "moves R < move_count M" by simp_all
  from example_run_obtain obtain R' M' w'' where
    run': "run_match ?G ?A 3 0 = Some (Inr (R', M'), w'')" and v: "moves R' = 1" "move_count M' = 3"
    by blast
  from run run' have "R' = R" "M' = M" by simp_all
  with v have v': "moves R = 1" "move_count M = 3" by simp_all
  from run p q v' have "run_match ?G ?A 3 0 = Some (Inr (R, M), w')
        \<and> move_count M = 3
        \<and> move_count M = min 3 (moves_until_terminal ?G (states_history M))
        \<and> rejected_for 0 (feedback M)
        \<and> moves R = 1 \<and> moves R < move_count M
        \<and> (\<exists>mo. (0, mo, False) \<in> set (feedback M))"
    by simp
  with ok rb np bad rej b show ?thesis by blast
qed

end
